theory Spec2Isabelle
  imports Main "HOL-Library.AList" "HOL-Library.List_Lexorder" "HOL-Library.Char_ord"
begin

chapter \<open>Content intelligence library: job orchestration, caches and engagement\<close>

text \<open>
  A shallow embedding of \<^verbatim>\<open>app.py\<close>.  Persisted JSON documents are typed values,
  Python dictionaries whose iteration order matters are association lists with
  distinct keys in insertion order, exceptions are values of a sum type, and the
  wall clock and the two external services are functions of an explicit call counter.
\<close>

section \<open>Persisted documents\<close>

text \<open>
  Every store of the program is a whole JSON document in one file.  A loader returns the
  default value when the file does not exist or does not parse.
\<close>

datatype 'a json_file = Absent | Unparsable | Parsed 'a

section \<open>Engagement log\<close>

text \<open>
  An event as \<^verbatim>\<open>save_engagement_event\<close> writes it.  The summary reads the three keys
  \<^verbatim>\<open>topic_title\<close>, \<^verbatim>\<open>event_type\<close> and \<^verbatim>\<open>pct\<close> with \<^verbatim>\<open>dict.get\<close>, so each may be
  missing; percentages are integers.
\<close>

record event =
  ts :: string
  event_type :: "string option"
  topic_title :: "string option"
  episode_id :: "string option"
  pct :: "int option"

text \<open>\<^verbatim>\<open>d.get(key, default)\<close> on an optional field.\<close>

definition get_or :: "'a option \<Rightarrow> 'a \<Rightarrow> 'a" where
  "get_or v d = (case v of None \<Rightarrow> d | Some x \<Rightarrow> x)"

text \<open>\<^verbatim>\<open>load_engagement\<close>: the event list, or the empty list.\<close>

definition load_engagement :: "event list json_file \<Rightarrow> event list" where
  "load_engagement f = (case f of Absent \<Rightarrow> [] | Unparsable \<Rightarrow> [] | Parsed evs \<Rightarrow> evs)"

text \<open>
  \<^verbatim>\<open>save_engagement_event\<close> builds the event (the optional keys are written only when
  given: \<^verbatim>\<open>if episode_id\<close> drops the empty string as well), appends it and keeps the
  last 2000 events.
\<close>

definition last_n :: "nat \<Rightarrow> 'a list \<Rightarrow> 'a list" where
  "last_n n xs = drop (length xs - n) xs"

definition new_event :: "string \<Rightarrow> string \<Rightarrow> string \<Rightarrow> string option \<Rightarrow> int option \<Rightarrow> event" where
  "new_event now etype title ep p =
     \<lparr> ts = now, event_type = Some etype, topic_title = Some title,
       episode_id = (if ep = Some [] then None else ep), pct = p \<rparr>"

definition save_engagement_event ::
  "string \<Rightarrow> string \<Rightarrow> string \<Rightarrow> string option \<Rightarrow> int option \<Rightarrow> event list json_file \<Rightarrow> event list json_file" where
  "save_engagement_event now etype title ep p f =
     (let events = load_engagement f @ [new_event now etype title ep p];
          events = (if length events > 2000 then last_n 2000 events else events)
      in Parsed events)"

text \<open>The per-topic signals, with the defaults of the \<^verbatim>\<open>defaultdict\<close>.\<close>

record signals =
  previewed :: bool
  commissioned :: bool
  dismissed :: bool
  max_pct :: int
  listen_complete :: bool

definition default_signals :: signals where
  "default_signals =
     \<lparr> previewed = False, commissioned = False, dismissed = False, max_pct = 0,
       listen_complete = False \<rparr>"

text \<open>
  \<^verbatim>\<open>topic_signals[t][field] = ...\<close>: the entry of \<open>t\<close> is created with the defaults at
  the end of the dictionary when it is missing, then updated in place.
\<close>

fun touch :: "string \<Rightarrow> (signals \<Rightarrow> signals) \<Rightarrow> (string \<times> signals) list \<Rightarrow> (string \<times> signals) list" where
  "touch t f [] = [(t, f default_signals)]"
| "touch t f ((k, s) # rest) = (if k = t then (k, f s) # rest else (k, s) # touch t f rest)"

text \<open>One iteration of the loop over the events.\<close>

definition record_event :: "event \<Rightarrow> (string \<times> signals) list \<Rightarrow> (string \<times> signals) list" where
  "record_event e sig =
     (let t = get_or (topic_title e) [] in
      if t = [] then sig
      else
        let et = get_or (event_type e) [] in
        if et = ''preview_started'' then touch t (\<lambda>s. s\<lparr>previewed := True\<rparr>) sig
        else if et = ''commissioned'' then touch t (\<lambda>s. s\<lparr>commissioned := True\<rparr>) sig
        else if et = ''dismissed'' then touch t (\<lambda>s. s\<lparr>dismissed := True\<rparr>) sig
        else if et = ''play_pct'' then
          touch t (\<lambda>s. s\<lparr>max_pct := max (max_pct s) (get_or (pct e) 0)\<rparr>) sig
        else if et = ''listen_complete'' then
          touch t (\<lambda>s. s\<lparr>listen_complete := True, max_pct := 100\<rparr>) sig
        else sig)"

definition topic_signals :: "event list \<Rightarrow> (string \<times> signals) list" where
  "topic_signals events = fold record_event events []"

text \<open>The three comprehensions over \<^verbatim>\<open>topic_signals.items()\<close>, before the slices.\<close>

definition strong_interest :: "(string \<times> signals) list \<Rightarrow> string list" where
  "strong_interest sig = map fst (filter (\<lambda>(t, s). listen_complete s \<or> 75 \<le> max_pct s) sig)"

definition moderate_interest :: "(string \<times> signals) list \<Rightarrow> string list" where
  "moderate_interest sig =
     map fst (filter (\<lambda>(t, s). \<not> dismissed s \<and> (previewed s \<or> 25 \<le> max_pct s)
                               \<and> t \<notin> set (strong_interest sig)) sig)"

definition dismissed_topics :: "(string \<times> signals) list \<Rightarrow> string list" where
  "dismissed_topics sig = map fst (filter (\<lambda>(t, s). dismissed s) sig)"

text \<open>
  \<^verbatim>\<open>get_engagement_summary\<close>: the empty dictionary for an empty log, else the three
  buckets, each cut to its last entries (\<^verbatim>\<open>[-20:]\<close>, \<^verbatim>\<open>[-20:]\<close>, \<^verbatim>\<open>[-30:]\<close>).
\<close>

definition get_engagement_summary :: "event list json_file \<Rightarrow> (string \<times> string list) list" where
  "get_engagement_summary f =
     (let events = load_engagement f in
      if events = [] then []
      else
        let sig = topic_signals events in
        [(''strong_interest'', last_n 20 (strong_interest sig)),
         (''moderate_interest'', last_n 20 (moderate_interest sig)),
         (''dismissed'', last_n 30 (dismissed_topics sig))])"

text \<open>Reading one bucket of a returned summary; a missing key reads as no titles.\<close>

definition bucket :: "string \<Rightarrow> (string \<times> string list) list \<Rightarrow> string list" where
  "bucket k summary = get_or (map_of summary k) []"

text \<open>
  What the log says about a topic, in the words of the specification: whether an event of
  a given type was observed for it, and the largest percentage of its \<^verbatim>\<open>play_pct\<close> events
  (0 when there is none).
\<close>

definition observed :: "string \<Rightarrow> event list \<Rightarrow> string \<Rightarrow> bool" where
  "observed et events t =
     list_ex (\<lambda>e. get_or (topic_title e) [] = t \<and> get_or (event_type e) [] = et) events"

definition max_play_pct :: "event list \<Rightarrow> string \<Rightarrow> int" where
  "max_play_pct events t =
     fold max (map (\<lambda>e. get_or (pct e) 0)
                 (filter (\<lambda>e. get_or (topic_title e) [] = t \<and> get_or (event_type e) [] = ''play_pct'')
                    events)) 0"

text \<open>
  The signals the loop has accumulated for a title, against what the log says: no entry
  when none of the five event types was seen for it, else the flags as observed; the
  stored maximum is the largest \<^verbatim>\<open>play_pct\<close> until a \<^verbatim>\<open>listen_complete\<close> puts it at 100
  or more.
\<close>

definition signals_agree :: "event list \<Rightarrow> string \<Rightarrow> signals option \<Rightarrow> bool" where
  "signals_agree evs t entry =
     (case entry of
        None \<Rightarrow>
          \<not> observed ''preview_started'' evs t \<and> \<not> observed ''commissioned'' evs t
          \<and> \<not> observed ''dismissed'' evs t \<and> \<not> observed ''play_pct'' evs t
          \<and> \<not> observed ''listen_complete'' evs t \<and> max_play_pct evs t = 0
      | Some s \<Rightarrow>
          previewed s = observed ''preview_started'' evs t
          \<and> commissioned s = observed ''commissioned'' evs t
          \<and> dismissed s = observed ''dismissed'' evs t
          \<and> listen_complete s = observed ''listen_complete'' evs t
          \<and> (if observed ''listen_complete'' evs t then 100 \<le> max_pct s
              else max_pct s = max_play_pct evs t))"

text \<open>A log in which \<open>n\<close> different topics are each reported with one event of a type.\<close>

definition one_event_each :: "string \<Rightarrow> nat \<Rightarrow> event list" where
  "one_event_each et n =
     map (\<lambda>i. new_event ''2026-01-01T00:00:00+00:00'' et (replicate (Suc i) (CHR ''a'')) None None) [0..<n]"

section \<open>Voice resolution\<close>

text \<open>
  A voice of the catalog that \<^verbatim>\<open>client.voices.get_all()\<close> returns.
\<close>

record voice =
  name :: string
  voice_id :: string
  category :: "string option"

text \<open>
  \<^verbatim>\<open>str.lower()\<close> on the ASCII letters; every other character is left as it is.
\<close>

definition lower_char :: "char \<Rightarrow> char" where
  "lower_char c =
     get_or (map_of (zip ''ABCDEFGHIJKLMNOPQRSTUVWXYZ'' ''abcdefghijklmnopqrstuvwxyz'') c) c"

definition lower :: "string \<Rightarrow> string" where
  "lower s = map lower_char s"

text \<open>\<^verbatim>\<open>s.startswith(p)\<close> and the substring test \<^verbatim>\<open>sub in s\<close>.\<close>

fun starts_with :: "string \<Rightarrow> string \<Rightarrow> bool" where
  "starts_with [] s = True"
| "starts_with (p # ps) [] = False"
| "starts_with (p # ps) (c # cs) = (p = c \<and> starts_with ps cs)"

fun contains :: "string \<Rightarrow> string \<Rightarrow> bool" where
  "contains sub [] = (sub = [])"
| "contains sub (c # cs) = (starts_with sub (c # cs) \<or> contains sub cs)"

text \<open>The two tests of \<^verbatim>\<open>resolve_voice\<close>, and its two loops with their early returns.\<close>

definition exact_match :: "string \<Rightarrow> voice \<Rightarrow> bool" where
  "exact_match q v = (lower (name v) = lower q \<or> voice_id v = q)"

definition partial_match :: "string \<Rightarrow> voice \<Rightarrow> bool" where
  "partial_match q v = contains (lower q) (lower (name v))"

fun first_exact :: "voice list \<Rightarrow> string \<Rightarrow> string option" where
  "first_exact [] q = None"
| "first_exact (v # vs) q = (if exact_match q v then Some (voice_id v) else first_exact vs q)"

fun first_partial :: "voice list \<Rightarrow> string \<Rightarrow> string option" where
  "first_partial [] q = None"
| "first_partial (v # vs) q = (if partial_match q v then Some (voice_id v) else first_partial vs q)"

definition resolve_voice_in :: "voice list \<Rightarrow> string \<Rightarrow> string option" where
  "resolve_voice_in voices name_or_id =
     (case first_exact voices name_or_id of
        Some vid \<Rightarrow> Some vid
      | None \<Rightarrow> first_partial voices name_or_id)"

text \<open>
  The order of the specification, for comparison: an exact case-insensitive name match,
  else an exact id match, else a case-insensitive substring match, else unresolved.
\<close>

definition resolve_voice_spec :: "voice list \<Rightarrow> string \<Rightarrow> string option" where
  "resolve_voice_spec voices q =
     (case find (\<lambda>v. lower (name v) = lower q) voices of
        Some v \<Rightarrow> Some (voice_id v)
      | None \<Rightarrow>
          (case find (\<lambda>v. voice_id v = q) voices of
             Some v \<Rightarrow> Some (voice_id v)
           | None \<Rightarrow>
               (case find (\<lambda>v. contains (lower q) (lower (name v))) voices of
                  Some v \<Rightarrow> Some (voice_id v)
                | None \<Rightarrow> None)))"

section \<open>Topics, episodes and the job registry\<close>

text \<open>
  A topic is a JSON object that a language model wrote or a caller sent: every key may be
  missing, and \<^verbatim>\<open>topic['title']\<close> on a missing key raises.
\<close>

record topic =
  rank :: "int option"
  title :: "string option"
  tension :: "string option"
  why_it_matters :: "string option"
  common_mistake :: "string option"
  sub_questions :: "string list option"
  trailer_hook :: "string option"
  production_brief :: "string option"
  series_context :: "string option"
  episode_number :: "int option"

text \<open>A published episode, as the workers build it.\<close>

record episode =
  ep_id :: string
  ep_title :: string
  ep_description :: string
  ep_file :: string
  ep_file_size :: nat
  ep_depth :: string
  ep_is_trailer :: bool
  ep_sources :: "string list"
  ep_published :: string
  ep_series_id :: "string option"
  ep_series_ep :: "nat option"

text \<open>The result payload of a finished job.\<close>

record job_result =
  res_topic :: "topic option"
  res_episode :: episode
  res_sources :: "string list"

datatype status = Queued | Running | Done | Error

record job =
  job_id :: string
  job_type :: string
  status :: status
  created_at :: string
  updated_at :: string
  progress :: string
  result :: "job_result option"
  error :: "string option"
  series_id :: "string option"
  series_ep :: "int option"

text \<open>
  The registry is the dictionary of \<^verbatim>\<open>jobs.json\<close>, from job id to job, in insertion
  order: the order decides which of two jobs with the same creation time is evicted.
\<close>

type_synonym registry = "(string \<times> job) list"

definition load_jobs :: "registry json_file \<Rightarrow> registry" where
  "load_jobs f = (case f of Absent \<Rightarrow> [] | Unparsable \<Rightarrow> [] | Parsed jobs \<Rightarrow> jobs)"

text \<open>
  \<^verbatim>\<open>_save_jobs\<close>: with more than 200 records, the keys are sorted by creation time (a
  stable sort on the ISO timestamps as strings) and all but the last 200 are deleted.
  The result is the document written to the file.
\<close>

definition created_key :: "registry \<Rightarrow> string \<Rightarrow> string" where
  "created_key jobs k = (case map_of jobs k of None \<Rightarrow> [] | Some j \<Rightarrow> created_at j)"

definition save_jobs :: "registry \<Rightarrow> registry" where
  "save_jobs jobs =
     (if length jobs > 200 then
        let sorted_keys = sort_key (created_key jobs) (map fst jobs)
        in fold AList.delete (take (length sorted_keys - 200) sorted_keys) jobs
      else jobs)"

text \<open>What \<^verbatim>\<open>_save_jobs\<close> deletes from a registry of more than 200 records.\<close>

definition evicted_keys :: "registry \<Rightarrow> string list" where
  "evicted_keys jobs =
     take (length jobs - 200) (sort_key (created_key jobs) (map fst jobs))"

text \<open>\<^verbatim>\<open>create_job\<close>, given the identifier and the two readings of the clock.\<close>

definition new_job :: "string \<Rightarrow> string \<Rightarrow> string \<Rightarrow> string \<Rightarrow> string option \<Rightarrow> int option \<Rightarrow> job" where
  "new_job jid jtype now1 now2 sid sep =
     \<lparr> job_id = jid, job_type = jtype, status = Queued, created_at = now1, updated_at = now2,
       progress = ''Queued...'', result = None, error = None, series_id = sid,
       series_ep = sep \<rparr>"

definition create_job_doc ::
  "string \<Rightarrow> string \<Rightarrow> string \<Rightarrow> string \<Rightarrow> string option \<Rightarrow> int option \<Rightarrow> registry json_file \<Rightarrow> registry" where
  "create_job_doc jid jtype now1 now2 sid sep f =
     save_jobs (AList.update jid (new_job jid jtype now1 now2 sid sep) (load_jobs f))"

text \<open>
  \<^verbatim>\<open>update_job\<close>: the keyword arguments the callers pass, merged into the record
  together with the new \<^verbatim>\<open>updated_at\<close>.  Nothing is written for an unknown id.
\<close>

record job_fields =
  set_status :: "status option"
  set_progress :: "string option"
  set_result :: "job_result option"
  set_error :: "string option"

definition no_fields :: job_fields where
  "no_fields = \<lparr> set_status = None, set_progress = None, set_result = None, set_error = None \<rparr>"

definition merge_fields :: "string \<Rightarrow> job_fields \<Rightarrow> job \<Rightarrow> job" where
  "merge_fields now kw j =
     j\<lparr> status := get_or (set_status kw) (status j),
        progress := get_or (set_progress kw) (progress j),
        result := (case set_result kw of None \<Rightarrow> result j | Some r \<Rightarrow> Some r),
        error := (case set_error kw of None \<Rightarrow> error j | Some e \<Rightarrow> Some e),
        updated_at := now \<rparr>"

definition update_job_doc :: "string \<Rightarrow> string \<Rightarrow> job_fields \<Rightarrow> registry json_file \<Rightarrow> registry option" where
  "update_job_doc now jid kw f =
     (let jobs = load_jobs f in
      case map_of jobs jid of
        None \<Rightarrow> None
      | Some j \<Rightarrow> Some (save_jobs (AList.update jid (merge_fields now kw j) jobs)))"

text \<open>
  \<^verbatim>\<open>clear_queue\<close>: the loop over a copy of the keys, the count of deleted records, and
  the document written.
\<close>

definition removable :: "job \<Rightarrow> bool" where
  "removable j = (status j = Queued \<or> status j = Error)"

definition clear_step :: "string \<Rightarrow> registry \<times> nat \<Rightarrow> registry \<times> nat" where
  "clear_step jid acc =
     (case map_of (fst acc) jid of
        None \<Rightarrow> acc
      | Some j \<Rightarrow> if removable j then (AList.delete jid (fst acc), snd acc + 1) else acc)"

definition clear_queue :: "registry json_file \<Rightarrow> nat \<times> registry" where
  "clear_queue f =
     (let jobs = load_jobs f;
          (jobs, cleared) = fold clear_step (map fst jobs) (jobs, 0)
      in (cleared, save_jobs jobs))"

text \<open>What the loop has kept of a registry once it has gone through the keys \<open>ks\<close>.\<close>

definition kept_after :: "string list \<Rightarrow> registry \<Rightarrow> registry" where
  "kept_after ks r = filter (\<lambda>e. \<not> (fst e \<in> set ks \<and> removable (snd e))) r"

text \<open>\<^verbatim>\<open>get_job\<close> and the status of a job in a registry document.\<close>

definition get_job :: "string \<Rightarrow> registry json_file \<Rightarrow> job option" where
  "get_job jid f = map_of (load_jobs f) jid"

definition status_in :: "string \<Rightarrow> registry \<Rightarrow> status option" where
  "status_in jid jobs = map_option status (map_of jobs jid)"

text \<open>
  A registry document as the program keeps it: a dictionary (no key twice) of at most 200
  records, which is what every write through \<^verbatim>\<open>_save_jobs\<close> leaves in the file.
\<close>

definition registry_ok :: "registry \<Rightarrow> bool" where
  "registry_ok jobs = (distinct (map fst jobs) \<and> length jobs \<le> 200)"

text \<open>A registry of \<open>n\<close> jobs created one after the other, for examples.\<close>

definition numbered_job :: "nat \<Rightarrow> string \<times> job" where
  "numbered_job i =
     (replicate (Suc i) (CHR ''j''),
      new_job (replicate (Suc i) (CHR ''j'')) ''generate''
        (replicate (Suc i) (CHR ''1'')) (replicate (Suc i) (CHR ''1'')) None None)"

definition numbered_registry :: "nat \<Rightarrow> registry" where
  "numbered_registry n = map numbered_job [0..<n]"

text \<open>The six topics of \<^verbatim>\<open>FALLBACK_TOPICS\<close>, word for word.\<close>

definition FALLBACK_TOPICS :: "topic list" where
  "FALLBACK_TOPICS =
     [
      \<lparr> rank = Some 1,
        title = Some ''The Governance Tax: Why Most Enterprise AI Programs Are Paying for Risk They've Already Accepted'',
        tension = Some ''Organizations build elaborate AI governance frameworks after already deploying high-risk systems. The governance comes after the exposure, not before it.'',
        why_it_matters = Some ''Misaligned governance timing creates compliance theater that burns budget without reducing actual risk.'',
        common_mistake = Some ''Leaders treat governance as a launch gate rather than a continuous risk calibration process, which means controls are always one deployment behind actual exposure.'',
        sub_questions = Some [''At what point does governance reduce risk versus just document it?'',
          ''How do you price retroactive governance versus pre-deployment friction?'',
          ''What incentive structures cause governance teams to prioritize documentation over risk reduction?''],
        trailer_hook = Some ''Here's something nobody in your governance steering committee wants to say out loud: most enterprise AI governance programs are retroactive. You've already deployed the models. You've already accepted the risk. The frameworks you're building now are documentation for decisions already made. The real question is whether your governance creates actual risk reduction or just paper trails.'',
        production_brief = None,
        series_context = None,
        episode_number = None \<rparr>,
      \<lparr> rank = Some 2,
        title = Some ''Agentic AI Broke Your ROI Model - And Your CFO Doesn't Know It Yet'',
        tension = Some ''Traditional ROI frameworks measure discrete outputs. Agentic AI generates value through non-linear, compounding processes largely invisible to standard measurement.'',
        why_it_matters = Some ''Executives who can't articulate agentic AI ROI in CFO terms will lose the budget war.'',
        common_mistake = Some ''Most analytics leaders retrofit agentic AI value into hours-saved metrics, which systematically undervalues compounding effects and undermines the investment case.'',
        sub_questions = Some [''What's the right unit of measurement for a system that improves its own decision quality over time?'',
          ''How do you present agentic ROI to a CFO trained on capital budgeting?'',
          ''What's the opportunity cost of NOT deploying agents while competitors do?''],
        trailer_hook = Some ''You cannot measure agentic AI the way you measured your last analytics platform. The value is in the loops - decisions made faster, signals never caught, systems learning at 3am. Your current ROI model was built for batch reporting. If you're still presenting AI value as hours-saved, you're losing the budget argument before it starts.'',
        production_brief = None,
        series_context = None,
        episode_number = None \<rparr>,
      \<lparr> rank = Some 3,
        title = Some ''The Data Moat Is Dead - What Replaces It as Strategic Advantage'',
        tension = Some ''For a decade, proprietary data was the defensible edge. Foundation models have commoditized data advantage faster than most executives have internalized.'',
        why_it_matters = Some ''Executives investing in data hoarding instead of workflow integration are building walls around empty vaults.'',
        common_mistake = Some ''Leaders conflate data volume with data advantage, not recognizing scarcity has shifted from data to operational judgment.'',
        sub_questions = Some [''What does a defensible moat look like when foundation models approximate your proprietary knowledge?'',
          ''How do you communicate the shift from data strategy to workflow strategy to a board that funded the data lake?'',
          ''Where does first-party behavioral data still create genuine asymmetry?''],
        trailer_hook = Some ''The data moat argument used to work. You had the data, competitors didn't, you had the edge. That logic is collapsing. When foundation models synthesize industry knowledge from public sources that rivals your proprietary training data, the moat isn't the data. The moat is the workflow.'',
        production_brief = None,
        series_context = None,
        episode_number = None \<rparr>,
      \<lparr> rank = Some 4,
        title = Some ''Beverage Alcohol's Data Silence Problem: Why the Industry Knows Less Than It Should'',
        tension = Some ''Despite massive distribution networks and decades of sell-through data, beverage alcohol remains one of the most information-asymmetric industries in CPG - by design.'',
        why_it_matters = Some ''The next competitive wave belongs to operators who solve the last-mile data problem, not those who spend more on brand.'',
        common_mistake = Some ''Brand teams treat the data gap as a vendor problem when the actual barrier is three-tier incentive misalignment no data provider can fix.'',
        sub_questions = Some [''What would real-time venue-level visibility require in a three-tier system?'',
          ''Where does menu scraping create actionable intelligence that replaces missing sell-through data?'',
          ''What's the strategic value of knowing venue penetration before competitors do?''],
        trailer_hook = Some ''The beverage alcohol industry sits on a paradox. Trillion-dollar brands. Global distribution. And almost no reliable real-time data on what's happening at venue level. The three-tier system was designed to create information asymmetry. That changes when AI reads menus at scale.'',
        production_brief = None,
        series_context = None,
        episode_number = None \<rparr>,
      \<lparr> rank = Some 5,
        title = Some ''Why Your Best Analysts Are Training Their Own Replacements'',
        tension = Some ''High-performing analysts who adopt AI are simultaneously commoditizing their own skills and becoming the most irreplaceable people in the organization.'',
        why_it_matters = Some ''Analytics talent strategy needs a complete rethink as the skill premium shifts from technical execution to system design.'',
        common_mistake = Some ''Analytics leaders protect headcount by resisting AI adoption, creating conditions for their function to be outsourced once leadership runs the math on AI-enabled generalists.'',
        sub_questions = Some [''What's the right ratio of AI-augmented analysts to traditional FTEs?'',
          ''What skills are you hiring for in 2026 that didn't exist as a category in 2022?'',
          ''How do you restructure performance management when AI handles most measurable output?''],
        trailer_hook = Some ''Your best analyst just used Claude to do in 20 minutes what used to take two weeks. You've repriced their labor market value downward and upward simultaneously. The person who knows how to direct AI toward the right problem is extraordinarily rare. How you respond to that tension will determine whether your analytics function compounds or collapses.'',
        production_brief = None,
        series_context = None,
        episode_number = None \<rparr>,
      \<lparr> rank = Some 6,
        title = Some ''The CAO Role Is Disappearing - What Comes Next Is More Powerful and Harder to Fill'',
        tension = Some ''The Chief Analytics Officer title is being absorbed into CAIO, CDO, and CTO roles - but the executive who translates AI capability into business strategy has never been more scarce.'',
        why_it_matters = Some ''Analytics leaders who define themselves by function rather than strategic value will find their seats eliminated in the next org redesign.'',
        common_mistake = Some ''CAOs defend their role by proving team output rather than positioning themselves as the interpreter between AI capability and board-level strategy.'',
        sub_questions = Some [''What's the actual job description of the executive who owns AI strategy in a post-CAO structure?'',
          ''How do you transition from functional leader to strategic interpreter before the title disappears?'',
          ''How do you build the board relationship that makes you essential regardless of title?''],
        trailer_hook = Some ''The CAO title is getting squeezed from three directions - Chief AI Officers taking the forward mandate, CDOs absorbing governance, CTOs claiming infrastructure. If your value proposition is 'I run the analytics function,' that's a shrinking job. If it's 'I make AI investments legible to the board,' that role has never been more critical or more vacant.'',
        production_brief = None,
        series_context = None,
        episode_number = None \<rparr>
     ]"

text \<open>
  The script that \<^verbatim>\<open>generate_grounded_script\<close> builds from the topic's own fields when
  both calls of the language model have failed, word for word.
\<close>

definition fallback_script :: "topic \<Rightarrow> string \<Rightarrow> string \<Rightarrow> (string \<times> string) list" where
  "fallback_script topic ttl tns =
     (let sq = get_or (sub_questions topic) [];
          matters = get_or (why_it_matters topic)
            ''This has direct implications for how you allocate capital and talent.'';
          mistake = get_or (common_mistake topic)
            ''They optimize for visibility over actual impact, which means the real exposure never gets addressed.''
      in
       [
        (''Alex'',
         ''Let's start with something most executives in this space already know but haven't fully acted on. ''
           @ ttl
           @ ''. The question isn't whether this is real - it's whether you're positioned correctly when it hits your organization.''),
        (''Morgan'',
         ''And the core tension is this: ''
           @ tns
           @ '' That's the uncomfortable part. Because it means the conventional playbook - the one that got most leaders to where they are - may actually be the wrong tool for what's coming.''),
        (''Alex'',
         ''Here's why this matters at the strategic level right now. ''
           @ matters
           @ '' And the window to get ahead of this is shorter than most leadership teams have internalized.''),
        (''Morgan'',
         ''Let's ground this in what's actually happening. The organizations that are navigating this well aren't the ones with the biggest budgets or the most sophisticated tech stacks. They're the ones that identified the structural cause early and built around it rather than against it.''),
        (''Alex'',
         ''The structural cause is key. Most conversations about this topic focus on symptoms - the visible friction, the metrics that are off, the talent gaps. But the mechanism underneath is an incentive misalignment that organizations keep papering over with process instead of fixing at the root.''),
        (''Morgan'',
         ''Which brings us to what sophisticated leaders consistently get wrong. ''
           @ mistake
           @ '' And the irony is that the leaders who are most experienced - who've solved hard problems before - are often the most prone to this mistake because their pattern recognition is calibrated to a different era.''),
        (''Alex'',
         ''The first question worth sitting with: ''
           @ (if sq \<noteq> [] then sq ! 0 else ''Where in your current approach are you optimizing for the appearance of progress rather than the underlying condition?'')
           @ '' That's not a rhetorical question. It has a specific answer in your organization right now.''),
        (''Morgan'',
         ''And the second: ''
           @ (if length sq > 1 then sq ! 1 else ''What would you do differently if you knew your current approach had a 24-month shelf life?'')
           @ '' Because the executives who are three moves ahead on this aren't smarter - they just asked that question earlier.''),
        (''Alex'',
         ''If there's a third lever worth examining: ''
           @ (if length sq > 2 then sq ! 2 else ''How are you measuring whether your governance and your actual exposure are in sync?'')
           @ '' The answer tells you more about your real risk posture than any framework document.''),
        (''Morgan'',
         ''Here's the practical implication. The next time this comes up - whether it's a board review, a budget cycle, or a talent discussion - the question isn't 'are we doing enough.' The question is 'are we working on the right thing.' Those are very different questions with very different answers.''),
        (''Alex'',
         ''The executives who navigate this well aren't the ones with the best data or the biggest teams. They're the ones who identified where their mental model was wrong and updated it before the market forced them to. That's the actual competitive advantage here.''),
        (''Morgan'',
         ''Leave you with this reframe: ''
           @ ttl
           @ '' isn't a problem to solve. It's a condition to position around. The organizations that treat it as solvable will spend the next three years in reactive mode. The ones that treat it as structural reality will spend that same time building asymmetric advantage. That's the briefing.'')
       ])"

section \<open>The files, the outside world and the workers' monad\<close>

text \<open>A series, as \<^verbatim>\<open>api_series_create\<close> writes it and the coordinator updates it.\<close>

datatype series_status = SQueued | Outlining | Producing | SDone | SError

record series =
  s_id :: string
  s_title :: string
  s_num_episodes :: int
  s_status :: series_status
  s_created_at :: string
  s_episodes :: "topic list"
  s_job_ids :: "string list"
  s_total :: int
  s_completed :: int
  s_error :: "string option"

text \<open>The document of the topic cache; \<^verbatim>\<open>cached.get("date")\<close> and \<^verbatim>\<open>cached["topics"]\<close>.\<close>

record cache_doc =
  c_date :: "string option"
  c_topics :: "topic list option"

text \<open>
  A script is a list of segments (host, text).  A reply of the language model is kept
  with what each caller's parsing makes of its text: a script with its sources, one topic,
  or a list of topics; \<open>Inl\<close> carries the message of the exception the parsing raises.
\<close>

type_synonym segment = "string \<times> string"

record reply =
  as_script :: "string + (segment list \<times> string list)"
  as_topic :: "string + topic"
  as_topics :: "string + topic list"

text \<open>
  Every reading of the outside world is recorded, and what it returns is a function of
  the number of readings made before it: a clock that moves, services that fail at one
  call and answer at the next.  \<open>GenerateTopics\<close> marks an entry into
  \<^verbatim>\<open>generate_topics_via_claude\<close>.
\<close>

datatype call =
  ClockUtc | ClockLocal | Today | Uuid | Anthropic bool | FetchAR | GenerateTopics
  | ElevenClient | VoicesGetAll | EpisodeAudio | CopyFile | FileSize

record env =
  utc_now :: "nat \<Rightarrow> string"
  local_stamp :: "nat \<Rightarrow> string"
  today_iso :: "nat \<Rightarrow> string"
  uuid8 :: "nat \<Rightarrow> string"
  anthropic_api_key :: string
  anthropic :: "nat \<Rightarrow> bool \<Rightarrow> string + reply"
  ar_dashboard :: "nat \<Rightarrow> (string \<times> string) list"
  elevenlabs :: "nat \<Rightarrow> string + unit"
  voices_get_all :: "nat \<Rightarrow> string + voice list"
  episode_audio :: "nat \<Rightarrow> string + unit"
  copy_file :: "nat \<Rightarrow> string + unit"
  file_size :: "nat \<Rightarrow> string + nat"

text \<open>
  The files of the program.  \<open>jobs_writes\<close> keeps every document written to
  \<^verbatim>\<open>jobs.json\<close>, in order: the states of the registry that a poller can see.
\<close>

record world =
  jobs_file :: "registry json_file"
  jobs_writes :: "registry list"
  series_file :: "series list json_file"
  episodes_file :: "episode list json_file"
  production_file :: "string list json_file"
  topics_cache :: "cache_doc json_file"
  calls :: "call list"

text \<open>
  An action runs on the files and either returns a value or raises an exception, of which
  the program only ever uses the message \<^verbatim>\<open>str(e)\<close>.
\<close>

type_synonym 'a action = "world \<Rightarrow> (string + 'a) \<times> world"

definition ret :: "'a \<Rightarrow> 'a action" where
  "ret x = (\<lambda>w. (Inr x, w))"

definition throw :: "string \<Rightarrow> 'a action" where
  "throw e = (\<lambda>w. (Inl e, w))"

definition bind :: "'a action \<Rightarrow> ('a \<Rightarrow> 'b action) \<Rightarrow> 'b action" where
  "bind m f = (\<lambda>w. case m w of (Inl e, w') \<Rightarrow> (Inl e, w') | (Inr x, w') \<Rightarrow> f x w')"

definition seq :: "'a action \<Rightarrow> 'b action \<Rightarrow> 'b action" where
  "seq m n = bind m (\<lambda>_. n)"

text \<open>\<^verbatim>\<open>try: m except Exception as e: h(e)\<close>.\<close>

definition try_except :: "'a action \<Rightarrow> (string \<Rightarrow> 'a action) \<Rightarrow> 'a action" where
  "try_except m h = (\<lambda>w. case m w of (Inl e, w') \<Rightarrow> h e w' | (Inr x, w') \<Rightarrow> (Inr x, w'))"

definition gets :: "(world \<Rightarrow> 'a) \<Rightarrow> 'a action" where
  "gets g = (\<lambda>w. (Inr (g w), w))"

definition modify :: "(world \<Rightarrow> world) \<Rightarrow> unit action" where
  "modify g = (\<lambda>w. (Inr (), g w))"

text \<open>A reading of the outside world that cannot fail, and one that can.\<close>

definition ask :: "call \<Rightarrow> (nat \<Rightarrow> 'a) \<Rightarrow> 'a action" where
  "ask c f = (\<lambda>w. (Inr (f (length (calls w))), w\<lparr>calls := calls w @ [c]\<rparr>))"

definition attempt :: "call \<Rightarrow> (nat \<Rightarrow> string + 'a) \<Rightarrow> 'a action" where
  "attempt c f = (\<lambda>w. (f (length (calls w)), w\<lparr>calls := calls w @ [c]\<rparr>))"

text \<open>\<^verbatim>\<open>d[key]\<close>: \<^verbatim>\<open>str(KeyError(key))\<close> is the key between apostrophes.\<close>

definition key_error :: "string \<Rightarrow> string" where
  "key_error k = [CHR 0x27] @ k @ [CHR 0x27]"

definition require_key :: "string \<Rightarrow> 'a option \<Rightarrow> 'a action" where
  "require_key k v = (case v of None \<Rightarrow> throw (key_error k) | Some x \<Rightarrow> ret x)"

text \<open>Parsing a reply: the exception of the parser, or the value.\<close>

definition parsed :: "string + 'a \<Rightarrow> 'a action" where
  "parsed p = (case p of Inl e \<Rightarrow> throw e | Inr x \<Rightarrow> ret x)"

section \<open>Registry, production log, episodes and series on the files\<close>

definition write_jobs :: "registry \<Rightarrow> world \<Rightarrow> world" where
  "write_jobs doc w = w\<lparr>jobs_file := Parsed doc, jobs_writes := jobs_writes w @ [doc]\<rparr>"

definition create_job :: "env \<Rightarrow> string \<Rightarrow> string option \<Rightarrow> int option \<Rightarrow> string action" where
  "create_job e jtype sid sep =
     bind (ask Uuid (uuid8 e)) (\<lambda>jid.
     bind (ask ClockUtc (utc_now e)) (\<lambda>now1.
     bind (ask ClockUtc (utc_now e)) (\<lambda>now2.
     seq (modify (\<lambda>w. write_jobs (create_job_doc jid jtype now1 now2 sid sep (jobs_file w)) w))
         (ret jid))))"

definition update_job :: "env \<Rightarrow> string \<Rightarrow> job_fields \<Rightarrow> unit action" where
  "update_job e jid kw =
     bind (ask ClockUtc (utc_now e)) (\<lambda>now.
     modify (\<lambda>w. case update_job_doc now jid kw (jobs_file w) of
                    None \<Rightarrow> w
                  | Some doc \<Rightarrow> write_jobs doc w))"

definition get_production_log :: "string list json_file \<Rightarrow> string list" where
  "get_production_log f = (case f of Absent \<Rightarrow> [] | Unparsable \<Rightarrow> [] | Parsed l \<Rightarrow> l)"

definition log_production :: "env \<Rightarrow> unit action" where
  "log_production e =
     bind (gets (\<lambda>w. get_production_log (production_file w))) (\<lambda>l.
     bind (ask ClockUtc (utc_now e)) (\<lambda>now.
     modify (\<lambda>w. w\<lparr>production_file := Parsed (l @ [now])\<rparr>)))"

definition load_episodes :: "episode list json_file \<Rightarrow> episode list" where
  "load_episodes f = (case f of Absent \<Rightarrow> [] | Unparsable \<Rightarrow> [] | Parsed l \<Rightarrow> l)"

text \<open>
  \<^verbatim>\<open>save_episode\<close>; the rebuild of the feed that follows writes a derived file only, and
  its failure is swallowed.
\<close>

definition save_episode :: "episode \<Rightarrow> unit action" where
  "save_episode entry =
     modify (\<lambda>w. w\<lparr>episodes_file := Parsed (load_episodes (episodes_file w) @ [entry])\<rparr>)"

definition load_series :: "series list json_file \<Rightarrow> series list" where
  "load_series f = (case f of Absent \<Rightarrow> [] | Unparsable \<Rightarrow> [] | Parsed l \<Rightarrow> l)"

text \<open>
  \<^verbatim>\<open>s = next((x for x in series_list if x["id"] == series_id), None)\<close>, and the write of
  the list after a change of \<open>s\<close>, which is the first entry with that id.
\<close>

definition find_series :: "string \<Rightarrow> series list \<Rightarrow> series option" where
  "find_series sid l = find (\<lambda>x. s_id x = sid) l"

fun change_first :: "string \<Rightarrow> (series \<Rightarrow> series) \<Rightarrow> series list \<Rightarrow> series list" where
  "change_first sid f [] = []"
| "change_first sid f (x # xs) = (if s_id x = sid then f x # xs else x # change_first sid f xs)"

definition save_changed :: "string \<Rightarrow> (series \<Rightarrow> series) \<Rightarrow> unit action" where
  "save_changed sid f =
     modify (\<lambda>w. w\<lparr>series_file := Parsed (change_first sid f (load_series (series_file w)))\<rparr>)"

section \<open>Scripts and audio\<close>

text \<open>Decimal digits of a number, for the f-strings.\<close>

fun str_nat :: "nat \<Rightarrow> string" where
  "str_nat n =
     (if n < 10 then [''0123456789'' ! n]
      else str_nat (n div 10) @ [''0123456789'' ! (n mod 10)])"

declare str_nat.simps [simp del]

text \<open>\<^verbatim>\<open>str.title()\<close> on ASCII letters: a letter after a letter is lowered, any other raised.\<close>

definition upper_char :: "char \<Rightarrow> char" where
  "upper_char c =
     get_or (map_of (zip ''abcdefghijklmnopqrstuvwxyz'' ''ABCDEFGHIJKLMNOPQRSTUVWXYZ'') c) c"

definition is_letter :: "char \<Rightarrow> bool" where
  "is_letter c = (c \<in> set ''abcdefghijklmnopqrstuvwxyzABCDEFGHIJKLMNOPQRSTUVWXYZ'')"

fun title_from :: "bool \<Rightarrow> string \<Rightarrow> string" where
  "title_from after_letter [] = []"
| "title_from after_letter (c # cs) =
     (if is_letter c
      then (if after_letter then lower_char c else upper_char c) # title_from True cs
      else c # title_from False cs)"

definition title_case :: "string \<Rightarrow> string" where
  "title_case s = title_from False s"

text \<open>
  \<^verbatim>\<open>generate_grounded_script\<close>.  The prompt reads \<^verbatim>\<open>topic['title']\<close> and
  \<^verbatim>\<open>topic['tension']\<close> before the \<^verbatim>\<open>try\<close>; inside it, a failed call with web search is
  followed by a call without, and any failure after that gives the local template with
  no sources.  The text of the prompt is not modelled: the model's reply does not depend
  on it here.
\<close>

definition call_anthropic :: "env \<Rightarrow> bool \<Rightarrow> reply action" where
  "call_anthropic e use_web_search = attempt (Anthropic use_web_search) (\<lambda>n. anthropic e n use_web_search)"

definition generate_grounded_script ::
  "env \<Rightarrow> topic \<Rightarrow> string \<Rightarrow> string \<Rightarrow> (segment list \<times> string list) action" where
  "generate_grounded_script e topic depth brief =
     bind (require_key ''title'' (title topic)) (\<lambda>ttl.
     bind (require_key ''tension'' (tension topic)) (\<lambda>tns.
     try_except
       (bind (try_except (call_anthropic e True) (\<lambda>ws_err. call_anthropic e False)) (\<lambda>data.
        parsed (as_script data)))
       (\<lambda>err. ret (fallback_script topic ttl tns, []))))"

text \<open>
  \<^verbatim>\<open>build_trailer_script\<close>: the default \<^verbatim>\<open>topic["tension"]\<close> of the \<^verbatim>\<open>get\<close> is evaluated
  whether it is used or not.
\<close>

definition build_trailer_script :: "topic \<Rightarrow> (segment list \<times> string list) action" where
  "build_trailer_script topic =
     bind (require_key ''tension'' (tension topic)) (\<lambda>tns.
     bind (require_key ''title'' (title topic)) (\<lambda>ttl.
     ret ([(''Alex'', get_or (trailer_hook topic) tns),
           (''Alex'', ''For the full briefing on '' @ ttl @ '', hit Generate Briefing. I'' @ [CHR 0x27] @ ''m Alex.'')],
          [])))"

text \<open>
  \<^verbatim>\<open>chat_to_topic\<close>: one call of the model, and the parse of its reply as a topic.
\<close>

definition chat_to_topic :: "env \<Rightarrow> string \<Rightarrow> topic list \<Rightarrow> topic action" where
  "chat_to_topic e user_message existing_topics =
     bind (call_anthropic e False) (\<lambda>data. parsed (as_topic data))"

text \<open>
  The voice service: the client, the catalog behind \<^verbatim>\<open>resolve_voice\<close>, the synthesis of
  all segments into one file, its copy into the episode directory and its size.
\<close>

definition get_elevenlabs_client :: "env \<Rightarrow> unit action" where
  "get_elevenlabs_client e = attempt ElevenClient (elevenlabs e)"

definition resolve_voice :: "env \<Rightarrow> unit \<Rightarrow> string \<Rightarrow> string option action" where
  "resolve_voice e client name_or_id =
     bind (attempt VoicesGetAll (voices_get_all e)) (\<lambda>voices.
     ret (resolve_voice_in voices name_or_id))"

definition generate_episode_audio ::
  "env \<Rightarrow> unit \<Rightarrow> segment list \<Rightarrow> string \<Rightarrow> string \<Rightarrow> string \<Rightarrow> unit action" where
  "generate_episode_audio e client script ep_dir voice_a_id voice_b_id =
     attempt EpisodeAudio (episode_audio e)"

definition copy2 :: "env \<Rightarrow> unit action" where
  "copy2 e = attempt CopyFile (copy_file e)"

definition st_size :: "env \<Rightarrow> nat action" where
  "st_size e = attempt FileSize (file_size e)"

text \<open>\<^verbatim>\<open>not voice_id\<close>: no voice, or a voice whose id is the empty string.\<close>

definition falsy :: "string option \<Rightarrow> bool" where
  "falsy v = (v = None \<or> v = Some [])"

section \<open>The background workers\<close>

definition kw_status :: "status \<Rightarrow> string \<Rightarrow> job_fields" where
  "kw_status s p = no_fields\<lparr>set_status := Some s, set_progress := Some p\<rparr>"

definition kw_progress :: "string \<Rightarrow> job_fields" where
  "kw_progress p = no_fields\<lparr>set_progress := Some p\<rparr>"

definition kw_error :: "string \<Rightarrow> job_fields" where
  "kw_error msg = no_fields\<lparr>set_status := Some Error, set_error := Some msg\<rparr>"

definition kw_done :: "string \<Rightarrow> job_result \<Rightarrow> job_fields" where
  "kw_done p r = no_fields\<lparr>set_status := Some Done, set_progress := Some p, set_result := Some r\<rparr>"

text \<open>The body of the \<^verbatim>\<open>try\<close> of \<^verbatim>\<open>_run_generate\<close>, and the worker with its handler.\<close>

definition run_generate_try ::
  "env \<Rightarrow> string \<Rightarrow> topic \<Rightarrow> string \<Rightarrow> string \<Rightarrow> string \<Rightarrow> bool \<Rightarrow> string \<Rightarrow> unit action" where
  "run_generate_try e jid topic_data depth voice_alex voice_morgan is_trailer brief =
     seq (update_job e jid (kw_status Running ''Connecting to voice service...''))
    (bind (get_elevenlabs_client e) (\<lambda>client.
     bind (resolve_voice e client voice_alex) (\<lambda>voice_a_id.
     bind (resolve_voice e client voice_morgan) (\<lambda>voice_b_id.
     if falsy voice_a_id \<or> falsy voice_b_id then
       update_job e jid (kw_error ''Voice not found'')
     else
       bind (if is_trailer then
               seq (update_job e jid (kw_progress ''Building trailer...''))
                   (build_trailer_script topic_data)
             else
               seq (update_job e jid (kw_progress ''Writing script - 1-2 minutes...''))
              (bind (generate_grounded_script e topic_data depth brief) (\<lambda>r.
               seq (log_production e) (ret r))))
         (\<lambda>(script, sources).
       seq (update_job e jid (kw_progress
              (''Generating audio ('' @ str_nat (length script) @ '' segments)...'')))
      (bind (ask ClockLocal (local_stamp e)) (\<lambda>timestamp.
       let ep_type = (if is_trailer then ''trailer'' else ''episode'');
           epid = ''briefing-'' @ ep_type @ ''-'' @ timestamp
       in
       seq (generate_episode_audio e client script epid (get_or voice_a_id []) (get_or voice_b_id []))
      (seq (copy2 e)
      (let label = (if is_trailer then ''Trailer'' else title_case depth) in
       bind (require_key ''title'' (title topic_data)) (\<lambda>ttl.
       bind (st_size e) (\<lambda>fsize.
       bind (ask ClockUtc (utc_now e)) (\<lambda>published.
       let entry = \<lparr> ep_id = epid,
                     ep_title = (if is_trailer then ''[Trailer] '' else []) @ ''Briefing: '' @ ttl,
                     ep_description = get_or (tension topic_data) [],
                     ep_file = epid @ ''.mp3'',
                     ep_file_size = fsize,
                     ep_depth = label,
                     ep_is_trailer = is_trailer,
                     ep_sources = sources,
                     ep_published = published,
                     ep_series_id = None,
                     ep_series_ep = None \<rparr>
       in
       seq (save_episode entry)
           (update_job e jid (kw_done ''Complete''
              \<lparr>res_topic = None, res_episode = entry, res_sources = sources\<rparr>))))))))))))))"

definition run_generate ::
  "env \<Rightarrow> string \<Rightarrow> topic \<Rightarrow> string \<Rightarrow> string \<Rightarrow> string \<Rightarrow> bool \<Rightarrow> string \<Rightarrow> unit action" where
  "run_generate e jid topic_data depth voice_alex voice_morgan is_trailer brief =
     try_except
       (run_generate_try e jid topic_data depth voice_alex voice_morgan is_trailer brief)
       (\<lambda>err. update_job e jid (kw_error err))"

text \<open>\<^verbatim>\<open>_run_chat\<close>.\<close>

definition run_chat_try ::
  "env \<Rightarrow> string \<Rightarrow> string \<Rightarrow> topic list \<Rightarrow> string \<Rightarrow> string \<Rightarrow> unit action" where
  "run_chat_try e jid message existing_topics voice_alex voice_morgan =
     seq (update_job e jid (kw_status Running ''Generating topic from your message...''))
    (bind (chat_to_topic e message existing_topics) (\<lambda>topic.
     let brief = get_or (production_brief topic) [] in
     seq (update_job e jid (kw_progress ''Writing script - 1-2 minutes...''))
    (bind (generate_grounded_script e topic ''standard'' brief) (\<lambda>(script, sources).
     seq (update_job e jid (kw_progress
            (''Generating audio ('' @ str_nat (length script) @ '' segments)...'')))
    (bind (get_elevenlabs_client e) (\<lambda>client.
     bind (resolve_voice e client voice_alex) (\<lambda>voice_a_id.
     bind (resolve_voice e client voice_morgan) (\<lambda>voice_b_id.
     if falsy voice_a_id \<or> falsy voice_b_id then
       update_job e jid (kw_error ''Voice not found'')
     else
       bind (ask ClockLocal (local_stamp e)) (\<lambda>timestamp.
       let epid = ''briefing-chat-'' @ timestamp in
       seq (generate_episode_audio e client script epid (get_or voice_a_id []) (get_or voice_b_id []))
      (seq (copy2 e)
      (seq (log_production e)
      (bind (require_key ''title'' (title topic)) (\<lambda>ttl.
       bind (require_key ''tension'' (tension topic)) (\<lambda>tns.
       bind (st_size e) (\<lambda>fsize.
       bind (ask ClockUtc (utc_now e)) (\<lambda>published.
       let entry = \<lparr> ep_id = epid,
                     ep_title = ''[Chat] '' @ ttl,
                     ep_description = tns,
                     ep_file = epid @ ''.mp3'',
                     ep_file_size = fsize,
                     ep_depth = ''Standard'',
                     ep_is_trailer = False,
                     ep_sources = sources,
                     ep_published = published,
                     ep_series_id = None,
                     ep_series_ep = None \<rparr>
       in
       seq (save_episode entry)
           (update_job e jid (kw_done ''Complete''
              \<lparr>res_topic = Some topic, res_episode = entry, res_sources = sources\<rparr>))))))))))))))))))"

definition run_chat ::
  "env \<Rightarrow> string \<Rightarrow> string \<Rightarrow> topic list \<Rightarrow> string \<Rightarrow> string \<Rightarrow> unit action" where
  "run_chat e jid message existing_topics voice_alex voice_morgan =
     try_except
       (run_chat_try e jid message existing_topics voice_alex voice_morgan)
       (\<lambda>err. update_job e jid (kw_error err))"

text \<open>
  \<^verbatim>\<open>_run_series\<close>.  One episode: the body of the \<^verbatim>\<open>try\<close> (its \<^verbatim>\<open>continue\<close> ends the body),
  then the loop with the handler; \<^verbatim>\<open>series_entry["job_ids"][i]\<close> is read outside the
  \<^verbatim>\<open>try\<close>.
\<close>

definition change_series :: "string \<Rightarrow> (series \<Rightarrow> series) \<Rightarrow> unit action" where
  "change_series sid f =
     bind (gets (\<lambda>w. load_series (series_file w))) (\<lambda>series_list.
     case find_series sid series_list of
       None \<Rightarrow> ret ()
     | Some s \<Rightarrow> modify (\<lambda>w. w\<lparr>series_file := Parsed (change_first sid f series_list)\<rparr>))"

definition run_series_episode_try ::
  "env \<Rightarrow> string \<Rightarrow> series \<Rightarrow> string \<Rightarrow> string \<Rightarrow> nat \<Rightarrow> nat \<Rightarrow> topic \<Rightarrow> string \<Rightarrow> unit action" where
  "run_series_episode_try e sid series_entry voice_alex voice_morgan n i ep_topic jid =
     (let ep_num = i + 1 in
      seq (update_job e jid (kw_status Running
             (''Episode '' @ str_nat ep_num @ ''/'' @ str_nat n @ '': Writing script...'')))
     (let brief = get_or (series_context ep_topic) []
            @ (if ep_num > 1
               then '' This is episode '' @ str_nat ep_num @ '' of '' @ str_nat n
                    @ '' in the series - assume listeners heard previous episodes.''
               else [])
      in
      bind (generate_grounded_script e ep_topic ''standard'' brief) (\<lambda>(script, sources).
      seq (log_production e)
     (seq (update_job e jid (kw_progress
             (''Episode '' @ str_nat ep_num @ ''/'' @ str_nat n @ '': Generating audio (''
              @ str_nat (length script) @ '' segments)...'')))
     (bind (get_elevenlabs_client e) (\<lambda>client.
      bind (resolve_voice e client voice_alex) (\<lambda>voice_a_id.
      bind (resolve_voice e client voice_morgan) (\<lambda>voice_b_id.
      if falsy voice_a_id \<or> falsy voice_b_id then
        update_job e jid (kw_error ''Voice not found'')
      else
        bind (ask ClockLocal (local_stamp e)) (\<lambda>timestamp.
        let epid = ''series-'' @ sid @ ''-ep'' @ str_nat ep_num @ ''-'' @ timestamp in
        seq (generate_episode_audio e client script epid (get_or voice_a_id []) (get_or voice_b_id []))
       (seq (copy2 e)
       (bind (require_key ''title'' (title ep_topic)) (\<lambda>ttl.
        bind (st_size e) (\<lambda>fsize.
        bind (ask ClockUtc (utc_now e)) (\<lambda>published.
        let entry = \<lparr> ep_id = epid,
                      ep_title = ''[S: '' @ s_title series_entry @ ''] Ep '' @ str_nat ep_num
                                 @ '': '' @ ttl,
                      ep_description = get_or (tension ep_topic) [],
                      ep_file = epid @ ''.mp3'',
                      ep_file_size = fsize,
                      ep_depth = ''Standard'',
                      ep_is_trailer = False,
                      ep_sources = sources,
                      ep_published = published,
                      ep_series_id = Some sid,
                      ep_series_ep = Some ep_num \<rparr>
        in
        seq (save_episode entry)
       (seq (update_job e jid (kw_done (''Episode '' @ str_nat ep_num @ '' complete'')
               \<lparr>res_topic = None, res_episode = entry, res_sources = sources\<rparr>))
            (change_series sid (\<lambda>s. s\<lparr>s_completed := s_completed s + 1\<rparr>)))))))))))))))))"

definition job_id_at :: "series \<Rightarrow> nat \<Rightarrow> string action" where
  "job_id_at series_entry i =
     (if i < length (s_job_ids series_entry) then ret (s_job_ids series_entry ! i)
      else throw ''list index out of range'')"

fun run_series_loop ::
  "env \<Rightarrow> string \<Rightarrow> series \<Rightarrow> string \<Rightarrow> string \<Rightarrow> nat \<Rightarrow> nat \<Rightarrow> topic list \<Rightarrow> unit action" where
  "run_series_loop e sid series_entry voice_alex voice_morgan n i [] = ret ()"
| "run_series_loop e sid series_entry voice_alex voice_morgan n i (ep_topic # rest) =
     bind (job_id_at series_entry i) (\<lambda>jid.
     seq (try_except
            (run_series_episode_try e sid series_entry voice_alex voice_morgan n i ep_topic jid)
            (\<lambda>err. update_job e jid (kw_error err)))
         (run_series_loop e sid series_entry voice_alex voice_morgan n (Suc i) rest))"

definition run_series :: "env \<Rightarrow> string \<Rightarrow> topic list \<Rightarrow> string \<Rightarrow> string \<Rightarrow> unit action" where
  "run_series e sid episodes voice_alex voice_morgan =
     bind (gets (\<lambda>w. load_series (series_file w))) (\<lambda>series_list.
     case find_series sid series_list of
       None \<Rightarrow> ret ()
     | Some series_entry \<Rightarrow>
         run_series_loop e sid series_entry voice_alex voice_morgan (length episodes) 0 episodes)"

text \<open>
  \<^verbatim>\<open>generate_series_outline\<close> (its exceptions are raised again) and
  \<^verbatim>\<open>_run_create_series\<close>.  The seed is a topic or a free text.
\<close>

datatype seed = SeedTopic topic | SeedPrompt string

definition generate_series_outline :: "env \<Rightarrow> seed \<Rightarrow> nat \<Rightarrow> topic list action" where
  "generate_series_outline e topic_or_prompt num_episodes =
     seq (case topic_or_prompt of
            SeedTopic t \<Rightarrow> seq (require_key ''title'' (title t)) (ret ())
          | SeedPrompt p \<Rightarrow> ret ())
    (bind (call_anthropic e False) (\<lambda>data. parsed (as_topics data)))"

fun create_episode_jobs :: "env \<Rightarrow> string \<Rightarrow> topic list \<Rightarrow> string list action" where
  "create_episode_jobs e sid [] = ret []"
| "create_episode_jobs e sid (ep # rest) =
     bind (require_key ''episode_number'' (episode_number ep)) (\<lambda>num.
     bind (create_job e ''series_ep'' (Some sid) (Some num)) (\<lambda>jid.
     bind (create_episode_jobs e sid rest) (\<lambda>jids.
     ret (jid # jids))))"

definition none_assignment :: string where
  "none_assignment = [CHR 0x27] @ ''NoneType'' @ [CHR 0x27] @ '' object does not support item assignment''"

definition run_create_series_try ::
  "env \<Rightarrow> string \<Rightarrow> seed \<Rightarrow> nat \<Rightarrow> string \<Rightarrow> string \<Rightarrow> unit action" where
  "run_create_series_try e sid topic_or_prompt num_episodes voice_alex voice_morgan =
     bind (gets (\<lambda>w. load_series (series_file w))) (\<lambda>series_list.
     case find_series sid series_list of
       None \<Rightarrow> ret ()
     | Some s0 \<Rightarrow>
        seq (modify (\<lambda>w. w\<lparr>series_file :=
               Parsed (change_first sid (\<lambda>s. s\<lparr>s_status := Outlining\<rparr>) series_list)\<rparr>))
       (bind (generate_series_outline e topic_or_prompt num_episodes) (\<lambda>episodes.
        bind (create_episode_jobs e sid episodes) (\<lambda>job_ids.
        bind (gets (\<lambda>w. load_series (series_file w))) (\<lambda>series_list.
        case find_series sid series_list of
          None \<Rightarrow> throw none_assignment
        | Some s1 \<Rightarrow>
           seq (modify (\<lambda>w. w\<lparr>series_file :=
                  Parsed (change_first sid
                    (\<lambda>s. s\<lparr>s_episodes := episodes, s_job_ids := job_ids, s_status := Producing,
                           s_total := int (length episodes), s_completed := 0\<rparr>) series_list)\<rparr>))
          (seq (run_series e sid episodes voice_alex voice_morgan)
               (change_series sid (\<lambda>s. s\<lparr>s_status := SDone\<rparr>))))))))"

definition run_create_series ::
  "env \<Rightarrow> string \<Rightarrow> seed \<Rightarrow> nat \<Rightarrow> string \<Rightarrow> string \<Rightarrow> unit action" where
  "run_create_series e sid topic_or_prompt num_episodes voice_alex voice_morgan =
     try_except
       (run_create_series_try e sid topic_or_prompt num_episodes voice_alex voice_morgan)
       (\<lambda>err. change_series sid (\<lambda>s. s\<lparr>s_status := SError, s_error := Some err\<rparr>))"

section \<open>Topics of the day\<close>

text \<open>
  \<^verbatim>\<open>generate_topics_via_claude\<close>: the fixed topics without an API key, and on any
  exception of the call or of the parse; else the first six topics of the reply.  The page
  fetched by \<^verbatim>\<open>fetch_ar_intelligence\<close> only extends the prompt.
\<close>

definition fetch_ar_intelligence :: "env \<Rightarrow> (string \<times> string) list action" where
  "fetch_ar_intelligence e = ask FetchAR (ar_dashboard e)"

definition generate_topics_via_claude :: "env \<Rightarrow> topic list action" where
  "generate_topics_via_claude e =
     seq (ask GenerateTopics (\<lambda>n. ()))
    (if anthropic_api_key e = [] then ret FALLBACK_TOPICS
     else
       try_except
         (bind (fetch_ar_intelligence e) (\<lambda>ar_data.
          bind (call_anthropic e False) (\<lambda>data.
          bind (parsed (as_topics data)) (\<lambda>topics.
          ret (take 6 topics)))))
         (\<lambda>err. ret FALLBACK_TOPICS))"

text \<open>
  \<^verbatim>\<open>get_topics_for_today\<close>: the cached topics when the cache file parses and carries
  today's date and a list of topics; else a generation, written to the cache with today's
  date.
\<close>

definition cached_topics :: "string \<Rightarrow> cache_doc json_file \<Rightarrow> topic list option" where
  "cached_topics today f =
     (case f of
        Absent \<Rightarrow> None
      | Unparsable \<Rightarrow> None
      | Parsed cached \<Rightarrow> (if c_date cached = Some today then c_topics cached else None))"

definition get_topics_for_today :: "env \<Rightarrow> topic list action" where
  "get_topics_for_today e =
     bind (ask Today (today_iso e)) (\<lambda>today.
     bind (gets topics_cache) (\<lambda>f.
     case cached_topics today f of
       Some topics \<Rightarrow> ret topics
     | None \<Rightarrow>
         bind (generate_topics_via_claude e) (\<lambda>topics.
         seq (modify (\<lambda>w. w\<lparr>topics_cache := Parsed \<lparr>c_date = Some today, c_topics = Some topics\<rparr>\<rparr>))
             (ret topics))))"

text \<open>How often a call was made, in the record of the readings of the outside world.\<close>

definition count_calls :: "call \<Rightarrow> world \<Rightarrow> nat" where
  "count_calls c w = length (filter (\<lambda>x. x = c) (calls w))"

text \<open>A reply from which no topics come: the call raised, or its text does not parse.\<close>

definition reply_unusable :: "string + reply \<Rightarrow> bool" where
  "reply_unusable r =
     (case r of Inl err \<Rightarrow> True
      | Inr data \<Rightarrow> (case as_topics data of Inl err \<Rightarrow> True | Inr topics \<Rightarrow> False))"

text \<open>An outside world for examples: no API key, every service refuses, and the date
  changes after the sixth reading.\<close>

definition silent_env :: env where
  "silent_env =
     \<lparr> utc_now = (\<lambda>n. ''2026-01-01T00:00:00+00:00''),
       local_stamp = (\<lambda>n. ''20260101-000000''),
       today_iso = (\<lambda>n. if n < 6 then ''2026-01-01'' else ''2026-01-02''),
       uuid8 = (\<lambda>n. replicate (Suc n) (CHR ''a'')),
       anthropic_api_key = [],
       anthropic = (\<lambda>n web. Inl ''HTTP Error 401''),
       ar_dashboard = (\<lambda>n. []),
       elevenlabs = (\<lambda>n. Inl ''No module named elevenlabs''),
       voices_get_all = (\<lambda>n. Inl ''unauthorized''),
       episode_audio = (\<lambda>n. Inl ''unauthorized''),
       copy_file = (\<lambda>n. Inr ()),
       file_size = (\<lambda>n. Inr 0) \<rparr>"

definition empty_world :: world where
  "empty_world =
     \<lparr> jobs_file = Absent, jobs_writes = [], series_file = Absent, episodes_file = Absent,
       production_file = Absent, topics_cache = Absent, calls = [] \<rparr>"

section \<open>Statements about the workers\<close>

text \<open>
  The order of the statuses along the life of a job: \<open>forward a b\<close> when a job whose
  status is \<open>a\<close> may later be seen with status \<open>b\<close>.  \<open>None\<close> is a job that is not in
  the registry.
\<close>

definition forward :: "status option \<Rightarrow> status option \<Rightarrow> bool" where
  "forward a b =
     (a = b \<or> b = None \<or> a = Some Queued
      \<or> (a = Some Running \<and> (b = Some Done \<or> b = Some Error)))"

text \<open>
  The registry as a worker found it, followed by every document written to the file since
  then: the successive states of the registry during the run that led from \<open>w0\<close> to \<open>w\<close>.
\<close>

definition trace_since :: "world \<Rightarrow> world \<Rightarrow> registry list" where
  "trace_since w0 w = load_jobs (jobs_file w0) # drop (length (jobs_writes w0)) (jobs_writes w)"

definition monotonic :: "string \<Rightarrow> registry list \<Rightarrow> bool" where
  "monotonic j tr = sorted_wrt forward (map (status_in j) tr)"

text \<open>Once \<^verbatim>\<open>done\<close> or \<^verbatim>\<open>error\<close>, the status of the job is the same in every later state.\<close>

definition final_status :: "string \<Rightarrow> registry list \<Rightarrow> bool" where
  "final_status j tr =
     (\<forall>b < length tr. \<forall>a \<le> b.
        status_in j (tr ! a) = Some Done \<or> status_in j (tr ! a) = Some Error
        \<longrightarrow> status_in j (tr ! b) = status_in j (tr ! a))"

text \<open>A job that has not reached \<^verbatim>\<open>done\<close> or \<^verbatim>\<open>error\<close>.\<close>

definition open_job :: "string \<Rightarrow> world \<Rightarrow> bool" where
  "open_job j w =
     (status_in j (load_jobs (jobs_file w)) \<noteq> Some Done
      \<and> status_in j (load_jobs (jobs_file w)) \<noteq> Some Error)"

text \<open>
  Hoare triples for actions, with one postcondition for a returned value and one for an
  exception; actions that leave the registry file alone; actions that never raise.
\<close>

definition valid ::
  "(world \<Rightarrow> bool) \<Rightarrow> 'a action \<Rightarrow> ('a \<Rightarrow> world \<Rightarrow> bool) \<Rightarrow> (string \<Rightarrow> world \<Rightarrow> bool) \<Rightarrow> bool" where
  "valid P m Q E =
     (\<forall>w. P w \<longrightarrow> (case m w of (Inl err, w') \<Rightarrow> E err w' | (Inr x, w') \<Rightarrow> Q x w'))"

definition quiet :: "'a action \<Rightarrow> bool" where
  "quiet m = (\<forall>w. jobs_file (snd (m w)) = jobs_file w \<and> jobs_writes (snd (m w)) = jobs_writes w)"

definition total :: "'a action \<Rightarrow> bool" where
  "total m = (\<forall>w. \<exists>x. fst (m w) = Inr x)"

text \<open>
  The invariant of a run that started in \<open>w0\<close>, for the job \<open>j\<close>: the documents written
  since then extend the trace monotonically, the file holds the last of them, and on a
  registry of at most 200 records no document has lost or gained a key.  \<open>pending\<close> adds
  that \<open>j\<close>, if it is one of the jobs \<open>K\<close> that the worker has still to finish, is open.
\<close>

definition tracked :: "string \<Rightarrow> world \<Rightarrow> world \<Rightarrow> bool" where
  "tracked j w0 w =
     (\<exists>ds. jobs_writes w = jobs_writes w0 @ ds
          \<and> monotonic j (load_jobs (jobs_file w0) # ds)
          \<and> load_jobs (jobs_file w) = last (load_jobs (jobs_file w0) # ds)
          \<and> (length (load_jobs (jobs_file w0)) \<le> 200
               \<longrightarrow> (\<forall>d \<in> set ds. map fst d = map fst (load_jobs (jobs_file w0)))))"

definition pending :: "string \<Rightarrow> string set \<Rightarrow> world \<Rightarrow> world \<Rightarrow> bool" where
  "pending j K w0 w = (tracked j w0 w \<and> (j \<in> K \<longrightarrow> open_job j w))"

text \<open>
  A state for examples: one queued job, and one series of one episode whose job it is.
\<close>

definition one_job_world :: world where
  "one_job_world =
     empty_world
       \<lparr> jobs_file := Parsed [(''j1'', new_job ''j1'' ''generate'' ''2026-01-01T00:00:00+00:00''
                                  ''2026-01-01T00:00:00+00:00'' None None)],
         series_file := Parsed
           [\<lparr> s_id = ''s1'', s_title = ''A series'', s_num_episodes = 1, s_status = Producing,
               s_created_at = ''2026-01-01T00:00:00+00:00'', s_episodes = [],
               s_job_ids = [''j1''], s_total = 1, s_completed = 0, s_error = None \<rparr>] \<rparr>"

definition plain_topic :: "string \<Rightarrow> topic" where
  "plain_topic t =
     \<lparr> rank = None, title = Some t, tension = Some t, why_it_matters = None,
       common_mistake = None, sub_questions = None, trailer_hook = None,
       production_brief = None, series_context = None, episode_number = None \<rparr>"


text \<open>
  An outside world in which the voice service works and the language model answers every
  call with an outline of three episodes, the second of which has no \<^verbatim>\<open>tension\<close>; the
  answer is no script, so that scripts come from the local template.
\<close>

definition outline_topic :: "string \<Rightarrow> string option \<Rightarrow> int \<Rightarrow> topic" where
  "outline_topic t tns n =
     \<lparr> rank = None, title = Some t, tension = tns, why_it_matters = None,
       common_mistake = None, sub_questions = None, trailer_hook = None,
       production_brief = None, series_context = None, episode_number = Some n \<rparr>"

definition three_outline :: "topic list" where
  "three_outline =
     [outline_topic ''One'' (Some ''First tension'') 1,
      outline_topic ''Two'' None 2,
      outline_topic ''Three'' (Some ''Third tension'') 3]"

definition studio_voices :: "voice list" where
  "studio_voices =
     [\<lparr> name = ''Alex'', voice_id = ''v-alex'', category = None \<rparr>,
      \<lparr> name = ''Morgan'', voice_id = ''v-morgan'', category = None \<rparr>]"

definition studio_env :: env where
  "studio_env =
     \<lparr> utc_now = (\<lambda>n. ''2026-01-01T00:00:00+00:00''),
       local_stamp = (\<lambda>n. ''20260101-000000''),
       today_iso = (\<lambda>n. ''2026-01-01''),
       uuid8 = (\<lambda>n. replicate (Suc n) (CHR ''a'')),
       anthropic_api_key = ''key'',
       anthropic = (\<lambda>n web. Inr \<lparr> as_script = Inl ''Expecting value'',
                                   as_topic = Inl ''Expecting value'',
                                   as_topics = Inr three_outline \<rparr>),
       ar_dashboard = (\<lambda>n. []),
       elevenlabs = (\<lambda>n. Inr ()),
       voices_get_all = (\<lambda>n. Inr studio_voices),
       episode_audio = (\<lambda>n. Inr ()),
       copy_file = (\<lambda>n. Inr ()),
       file_size = (\<lambda>n. Inr 1000) \<rparr>"

text \<open>A state with the same series on file and a registry of 200 jobs.\<close>

definition full_series_world :: world where
  "full_series_world = one_job_world\<lparr>jobs_file := Parsed (numbered_registry 200)\<rparr>"
text \<open>
  What a poller sees of a job: its status and its error message.
\<close>

definition jobs_view :: "world \<Rightarrow> string \<Rightarrow> (status \<times> string option) option" where
  "jobs_view w jid = map_option (\<lambda>b. (status b, error b)) (get_job jid (jobs_file w))"

text \<open>
  What the feed shows of a published episode: the series it belongs to, its number in the
  series, its title and its description.  \<open>series_card\<close> is the card of the entry that
  \<^verbatim>\<open>_run_series\<close> builds for episode \<open>n\<close> of the series \<open>sid\<close> with title \<open>stitle\<close>.
\<close>

type_synonym card = "string option \<times> nat option \<times> string \<times> string"

definition episode_card :: "episode \<Rightarrow> card" where
  "episode_card ep = (ep_series_id ep, ep_series_ep ep, ep_title ep, ep_description ep)"

definition shelf :: "world \<Rightarrow> card list" where
  "shelf w = map episode_card (load_episodes (episodes_file w))"

definition series_card :: "string \<Rightarrow> string \<Rightarrow> nat \<Rightarrow> topic \<Rightarrow> card" where
  "series_card sid stitle n t =
     (Some sid, Some n,
      ''[S: '' @ stitle @ ''] Ep '' @ str_nat n @ '': '' @ get_or (title t) [],
      get_or (tension t) [])"

text \<open>The audio files rendered and copied: these calls, in the record of the readings.\<close>

definition studio_calls :: "world \<Rightarrow> call list" where
  "studio_calls w = filter (\<lambda>c. c = EpisodeAudio \<or> c = CopyFile) (calls w)"

text \<open>
  \<open>observe V S C A\<close> holds of a state whose registry has at most 200 records and shows
  \<open>V\<close>, whose series list is \<open>S\<close>, whose published episodes show the cards \<open>C\<close>, and in
  which the audio files \<open>A\<close> were rendered and copied.
\<close>

definition observe ::
  "(string \<Rightarrow> (status \<times> string option) option) \<Rightarrow> series list \<Rightarrow> card list \<Rightarrow> call list
     \<Rightarrow> world \<Rightarrow> bool" where
  "observe V S C A w =
     (length (load_jobs (jobs_file w)) \<le> 200 \<and> jobs_view w = V
      \<and> load_series (series_file w) = S \<and> shelf w = C \<and> studio_calls w = A)"

text \<open>The keyword arguments of \<^verbatim>\<open>update_job\<close> on what a poller sees.\<close>

definition apply_kw :: "job_fields \<Rightarrow> status \<times> string option \<Rightarrow> status \<times> string option" where
  "apply_kw kw v =
     (get_or (set_status kw) (fst v), (case set_error kw of None \<Rightarrow> snd v | Some m \<Rightarrow> Some m))"

text \<open>
  Actions that leave the registry, the series list and the published episodes alone, and
  render no audio.
\<close>

definition unchanged :: "world \<Rightarrow> world \<Rightarrow> bool" where
  "unchanged w w' =
     (jobs_file w' = jobs_file w \<and> series_file w' = series_file w
      \<and> episodes_file w' = episodes_file w \<and> studio_calls w' = studio_calls w)"

definition calm :: "'a action \<Rightarrow> bool" where
  "calm m = (\<forall>w. unchanged w (snd (m w)))"

text \<open>
  A voice service that works at every call: the client is built, the catalog resolves
  both voices to an id that is not empty, the audio is rendered and copied, and the file
  has a size.
\<close>

definition studio_ok :: "env \<Rightarrow> string \<Rightarrow> string \<Rightarrow> bool" where
  "studio_ok e voice_alex voice_morgan =
     (\<forall>n. elevenlabs e n = Inr ()
         \<and> (\<exists>voices. voices_get_all e n = Inr voices
               \<and> \<not> falsy (resolve_voice_in voices voice_alex)
               \<and> \<not> falsy (resolve_voice_in voices voice_morgan))
         \<and> episode_audio e n = Inr ()
         \<and> copy_file e n = Inr ()
         \<and> (\<exists>sz. file_size e n = Inr sz))"

text \<open>The topic that seeds an outline can be read: a free text, or a topic with a title.\<close>

definition seed_ok :: "seed \<Rightarrow> bool" where
  "seed_ok s = (case s of SeedTopic t \<Rightarrow> title t \<noteq> None | SeedPrompt p \<Rightarrow> True)"

text \<open>
  \<open>on_file c F S C A\<close> holds of a state in which \<open>c\<close> readings of the outside world
  were made and the registry file is \<open>F\<close>.
\<close>

definition on_file ::
  "nat \<Rightarrow> registry json_file \<Rightarrow> series list \<Rightarrow> card list \<Rightarrow> call list \<Rightarrow> world \<Rightarrow> bool" where
  "on_file c F S C A w =
     (length (calls w) = c \<and> jobs_file w = F \<and> load_series (series_file w) = S
      \<and> shelf w = C \<and> studio_calls w = A)"

text \<open>
  The registry keeps a new job: it has room for three more records; or it is a dictionary
  whose records were not created after the present reading of the clock, the clock does
  not run backwards, and the identifiers handed out are not in it.
\<close>

definition keeps_new_jobs :: "env \<Rightarrow> world \<Rightarrow> bool" where
  "keeps_new_jobs e w =
     (length (load_jobs (jobs_file w)) + 3 \<le> 200
      \<or> (distinct (map fst (load_jobs (jobs_file w)))
         \<and> (\<forall>x \<in> set (load_jobs (jobs_file w)).
               created_at (snd x) \<le> utc_now e (length (calls w))
               \<and> (\<forall>n. uuid8 e n \<noteq> fst x))
         \<and> (\<forall>m n. m \<le> n \<longrightarrow> utc_now e m \<le> utc_now e n)))"

text \<open>
  What the series page shows of a series: its status, its counter of completed episodes,
  and for each of its jobs, in order, the status and the error message.
\<close>

definition series_report ::
  "string \<Rightarrow> world \<Rightarrow> (series_status \<times> int \<times> (status \<times> string option) option list) option" where
  "series_report sid w =
     (case find_series sid (load_series (series_file w)) of
        None \<Rightarrow> None
      | Some s \<Rightarrow> Some (s_status s, s_completed s, map (jobs_view w) (s_job_ids s)))"
section \<open>Unfolding the actions\<close>

lemmas action_defs = ret_def throw_def bind_def seq_def try_except_def gets_def modify_def
  ask_def attempt_def parsed_def require_key_def

section \<open>Engagement summary: classification\<close>

lemma last_n_all: "length xs \<le> n \<Longrightarrow> last_n n xs = xs"
  by (simp add: last_n_def)

lemma length_last_n: "length (last_n n xs) = min n (length xs)"
  by (simp add: last_n_def)

lemma set_last_n_subset: "set (last_n n xs) \<subseteq> set xs"
  by (simp add: last_n_def set_drop_subset)

lemma touch_keys:
  "map fst (touch t f sig) = (if t \<in> fst ` set sig then map fst sig else map fst sig @ [t])"
  by (induction sig) (auto split: if_splits)

lemma touch_distinct: "distinct (map fst sig) \<Longrightarrow> distinct (map fst (touch t f sig))"
  by (simp add: touch_keys)

lemma touch_map_of:
  "map_of (touch t f sig) = (map_of sig)(t \<mapsto> f (get_or (map_of sig t) default_signals))"
  by (induction sig) (auto simp: get_or_def fun_eq_iff)

lemma record_event_distinct:
  "distinct (map fst sig) \<Longrightarrow> distinct (map fst (record_event e sig))"
  by (simp add: record_event_def Let_def touch_distinct)

lemma fold_record_event_distinct:
  "distinct (map fst sig) \<Longrightarrow> distinct (map fst (fold record_event evs sig))"
  by (induction evs arbitrary: sig) (simp_all add: record_event_distinct)

lemma topic_signals_distinct: "distinct (map fst (topic_signals evs))"
  by (simp add: topic_signals_def fold_record_event_distinct)

lemma topic_signals_snoc: "topic_signals (evs @ [e]) = record_event e (topic_signals evs)"
  by (simp add: topic_signals_def)

lemma observed_snoc:
  "observed et (evs @ [e]) t =
     (observed et evs t \<or> (get_or (topic_title e) [] = t \<and> get_or (event_type e) [] = et))"
  by (auto simp: observed_def list_ex_iff)

lemma max_play_pct_snoc:
  "max_play_pct (evs @ [e]) t =
     (if get_or (topic_title e) [] = t \<and> get_or (event_type e) [] = ''play_pct''
      then max (get_or (pct e) 0) (max_play_pct evs t) else max_play_pct evs t)"
  by (simp add: max_play_pct_def)

lemma max_play_pct_nonneg: "0 \<le> max_play_pct evs t"
proof (induction evs rule: rev_induct)
  case Nil
  show ?case by (simp add: max_play_pct_def)
next
  case (snoc e evs)
  then show ?case by (simp add: max_play_pct_snoc le_max_iff_disj)
qed

lemma signals_agree_topic_signals:
  "t \<noteq> [] \<Longrightarrow> signals_agree evs t (map_of (topic_signals evs) t)"
proof (induction evs rule: rev_induct)
  case Nil
  then show ?case
    by (simp add: signals_agree_def topic_signals_def observed_def max_play_pct_def)
next
  case (snoc e evs)
  then have IH: "signals_agree evs t (map_of (topic_signals evs) t)" by simp
  show ?case
  proof (cases "get_or (topic_title e) [] = t")
    case False
    then have "map_of (record_event e (topic_signals evs)) t = map_of (topic_signals evs) t"
      by (simp add: record_event_def Let_def touch_map_of)
    with IH False show ?thesis
      by (simp add: topic_signals_snoc signals_agree_def observed_snoc max_play_pct_snoc
          split: option.splits)
  next
    case True
    with IH snoc.prems show ?thesis
      by (auto simp: topic_signals_snoc signals_agree_def observed_snoc max_play_pct_snoc
          record_event_def Let_def touch_map_of get_or_def default_signals_def
          split: option.splits if_splits)
  qed
qed

lemma in_strong_interest:
  "distinct (map fst sig) \<Longrightarrow>
   t \<in> set (strong_interest sig) \<longleftrightarrow>
     (\<exists>s. map_of sig t = Some s \<and> (listen_complete s \<or> 75 \<le> max_pct s))"
  by (auto simp: strong_interest_def image_iff)

lemma in_moderate_interest:
  "distinct (map fst sig) \<Longrightarrow>
   t \<in> set (moderate_interest sig) \<longleftrightarrow>
     (\<exists>s. map_of sig t = Some s \<and> \<not> dismissed s \<and> (previewed s \<or> 25 \<le> max_pct s)
          \<and> t \<notin> set (strong_interest sig))"
  by (auto simp: moderate_interest_def image_iff)

lemma in_dismissed_topics:
  "distinct (map fst sig) \<Longrightarrow>
   t \<in> set (dismissed_topics sig) \<longleftrightarrow> (\<exists>s. map_of sig t = Some s \<and> dismissed s)"
  by (auto simp: dismissed_topics_def image_iff)

lemma strong_interest_iff:
  assumes "t \<noteq> []"
  shows "t \<in> set (strong_interest (topic_signals evs)) \<longleftrightarrow>
           observed ''listen_complete'' evs t \<or> 75 \<le> max_play_pct evs t"
proof (cases "map_of (topic_signals evs) t")
  case None
  with signals_agree_topic_signals [OF assms, of evs] show ?thesis
    by (simp add: in_strong_interest topic_signals_distinct signals_agree_def)
next
  case (Some s)
  with signals_agree_topic_signals [OF assms, of evs] show ?thesis
    by (auto simp: in_strong_interest topic_signals_distinct signals_agree_def
        split: if_splits)
qed

lemma moderate_interest_iff:
  assumes "t \<noteq> []"
  shows "t \<in> set (moderate_interest (topic_signals evs)) \<longleftrightarrow>
           \<not> observed ''dismissed'' evs t
           \<and> (observed ''preview_started'' evs t \<or> 25 \<le> max_play_pct evs t)
           \<and> \<not> (observed ''listen_complete'' evs t \<or> 75 \<le> max_play_pct evs t)"
proof (cases "map_of (topic_signals evs) t")
  case None
  with signals_agree_topic_signals [OF assms, of evs] show ?thesis
    by (simp add: in_moderate_interest topic_signals_distinct signals_agree_def)
next
  case (Some s)
  with signals_agree_topic_signals [OF assms, of evs] show ?thesis
    by (auto simp: in_moderate_interest topic_signals_distinct signals_agree_def
        strong_interest_iff [OF assms] split: if_splits)
qed

lemma dismissed_topics_iff:
  assumes "t \<noteq> []"
  shows "t \<in> set (dismissed_topics (topic_signals evs)) \<longleftrightarrow> observed ''dismissed'' evs t"
proof (cases "map_of (topic_signals evs) t")
  case None
  with signals_agree_topic_signals [OF assms, of evs] show ?thesis
    by (simp add: in_dismissed_topics topic_signals_distinct signals_agree_def)
next
  case (Some s)
  with signals_agree_topic_signals [OF assms, of evs] show ?thesis
    by (simp add: in_dismissed_topics topic_signals_distinct signals_agree_def)
qed

section \<open>Engagement summary: the claims\<close>

lemma bucket_strong:
  "bucket ''strong_interest'' (get_engagement_summary (Parsed evs)) =
     last_n 20 (strong_interest (topic_signals evs))"
  by (simp add: bucket_def get_engagement_summary_def load_engagement_def get_or_def Let_def
      last_n_def strong_interest_def topic_signals_def)

lemma bucket_moderate:
  "bucket ''moderate_interest'' (get_engagement_summary (Parsed evs)) =
     last_n 20 (moderate_interest (topic_signals evs))"
  by (simp add: bucket_def get_engagement_summary_def load_engagement_def get_or_def Let_def
      last_n_def moderate_interest_def topic_signals_def)

lemma bucket_dismissed:
  "bucket ''dismissed'' (get_engagement_summary (Parsed evs)) =
     last_n 30 (dismissed_topics (topic_signals evs))"
  by (simp add: bucket_def get_engagement_summary_def load_engagement_def get_or_def Let_def
      last_n_def dismissed_topics_def topic_signals_def)

text \<open>
  C5, as stated, fails on the returned summary: of 21 topics that each had a
  \<^verbatim>\<open>listen_complete\<close> event, the first is missing from \<^verbatim>\<open>strong_interest\<close>, which
  holds the last 20 titles only.
\<close>

theorem strong_bucket_cap_counterexample:
  "observed ''listen_complete'' (one_event_each ''listen_complete'' 21) ''a''
   \<and> ''a'' \<notin> set (bucket ''strong_interest''
         (get_engagement_summary (Parsed (one_event_each ''listen_complete'' 21))))"
  by code_simp

text \<open>
  C5, amended.  For every event log and every topic with a non-empty title, the
  classification computed before the buckets are cut puts the topic in strong interest
  iff a \<^verbatim>\<open>listen_complete\<close> event was observed or its maximum \<^verbatim>\<open>play_pct\<close> is at least 75,
  and in moderate interest iff it is not dismissed, it was previewed or its maximum
  \<^verbatim>\<open>play_pct\<close> is at least 25, and it is not strong.  The returned \<^verbatim>\<open>strong_interest\<close> and
  \<^verbatim>\<open>moderate_interest\<close> buckets are the last 20 entries of these lists.  For the log
  \<^verbatim>\<open>[preview_started(T), play_pct(T, 80)]\<close> the topic is in the returned
  \<^verbatim>\<open>strong_interest\<close> and not in the returned \<^verbatim>\<open>moderate_interest\<close>.
\<close>

theorem engagement_classification:
  assumes "t \<noteq> []"
  shows "(t \<in> set (strong_interest (topic_signals evs)) \<longleftrightarrow>
            observed ''listen_complete'' evs t \<or> 75 \<le> max_play_pct evs t)
       \<and> (t \<in> set (moderate_interest (topic_signals evs)) \<longleftrightarrow>
            \<not> observed ''dismissed'' evs t
            \<and> (observed ''preview_started'' evs t \<or> 25 \<le> max_play_pct evs t)
            \<and> \<not> (observed ''listen_complete'' evs t \<or> 75 \<le> max_play_pct evs t))
       \<and> bucket ''strong_interest'' (get_engagement_summary (Parsed evs)) =
            last_n 20 (strong_interest (topic_signals evs))
       \<and> bucket ''moderate_interest'' (get_engagement_summary (Parsed evs)) =
            last_n 20 (moderate_interest (topic_signals evs))
       \<and> t \<in> set (bucket ''strong_interest'' (get_engagement_summary (Parsed
            [new_event now1 ''preview_started'' t None None,
             new_event now2 ''play_pct'' t None (Some 80)])))
       \<and> t \<notin> set (bucket ''moderate_interest'' (get_engagement_summary (Parsed
            [new_event now1 ''preview_started'' t None None,
             new_event now2 ''play_pct'' t None (Some 80)])))"
proof -
  let ?ex = "[new_event now1 ''preview_started'' t None None,
              new_event now2 ''play_pct'' t None (Some 80)]"
  have obs: "\<not> observed ''listen_complete'' ?ex t" "observed ''preview_started'' ?ex t"
    "\<not> observed ''dismissed'' ?ex t"
    by (simp_all add: observed_def new_event_def get_or_def)
  have mx: "max_play_pct ?ex t = 80"
    by (simp add: max_play_pct_def new_event_def get_or_def)
  have s: "t \<in> set (strong_interest (topic_signals ?ex))"
    using obs mx by (simp add: strong_interest_iff [OF assms])
  have m: "t \<notin> set (moderate_interest (topic_signals ?ex))"
    using obs mx by (simp add: moderate_interest_iff [OF assms])
  have "length (strong_interest (topic_signals ?ex)) \<le> 20"
    by (simp add: strong_interest_def topic_signals_def record_event_def new_event_def
        get_or_def Let_def assms)
  then have sb: "t \<in> set (bucket ''strong_interest'' (get_engagement_summary (Parsed ?ex)))"
    using s by (simp only: bucket_strong last_n_all)
  have mb: "t \<notin> set (bucket ''moderate_interest'' (get_engagement_summary (Parsed ?ex)))"
    using m set_last_n_subset [of 20 "moderate_interest (topic_signals ?ex)"]
    by (auto simp only: bucket_moderate)
  show ?thesis
    using strong_interest_iff [OF assms, of evs] moderate_interest_iff [OF assms, of evs]
      sb mb
    by (simp only: bucket_strong bucket_moderate simp_thms)
qed

theorem engagement_classification_witness:
  "''T'' \<noteq> []
   \<and> observed ''preview_started''
        [new_event ''t1'' ''preview_started'' ''T'' None None,
         new_event ''t2'' ''play_pct'' ''T'' None (Some 80)] ''T''
   \<and> max_play_pct
        [new_event ''t1'' ''preview_started'' ''T'' None None,
         new_event ''t2'' ''play_pct'' ''T'' None (Some 80)] ''T'' = 80
   \<and> ''T'' \<in> set (strong_interest (topic_signals
        [new_event ''t1'' ''preview_started'' ''T'' None None,
         new_event ''t2'' ''play_pct'' ''T'' None (Some 80)]))
   \<and> ''T'' \<notin> set (moderate_interest (topic_signals
        [new_event ''t1'' ''preview_started'' ''T'' None None,
         new_event ''t2'' ''play_pct'' ''T'' None (Some 80)]))
   \<and> ''T'' \<in> set (bucket ''strong_interest'' (get_engagement_summary (Parsed
        [new_event ''t1'' ''preview_started'' ''T'' None None,
         new_event ''t2'' ''play_pct'' ''T'' None (Some 80)])))
   \<and> ''T'' \<notin> set (bucket ''moderate_interest'' (get_engagement_summary (Parsed
        [new_event ''t1'' ''preview_started'' ''T'' None None,
         new_event ''t2'' ''play_pct'' ''T'' None (Some 80)])))"
proof -
  let ?ex = "[new_event ''t1'' ''preview_started'' ''T'' None None,
              new_event ''t2'' ''play_pct'' ''T'' None (Some 80)]"
  have ne: "''T'' \<noteq> []" by simp
  have o: "observed ''preview_started'' ?ex ''T''"
    by (simp add: observed_def new_event_def get_or_def)
  have m: "max_play_pct ?ex ''T'' = 80"
    by (simp add: max_play_pct_def new_event_def get_or_def)
  note th = engagement_classification [OF ne, of ?ex "''t1''" "''t2''"]
  have s: "''T'' \<in> set (strong_interest (topic_signals ?ex))"
    using th m by simp
  have md: "''T'' \<notin> set (moderate_interest (topic_signals ?ex))"
    using th m by simp
  from th have b: "''T'' \<in> set (bucket ''strong_interest'' (get_engagement_summary (Parsed ?ex)))"
      "''T'' \<notin> set (bucket ''moderate_interest'' (get_engagement_summary (Parsed ?ex)))"
    by blast+
  from ne o m s md b show ?thesis by blast
qed

text \<open>
  C6, as stated, fails on the returned summary: of 31 dismissed topics the first is
  missing from the \<^verbatim>\<open>dismissed\<close> bucket, which holds the last 30 titles only.
\<close>

theorem dismissed_bucket_cap_counterexample:
  "observed ''dismissed'' (one_event_each ''dismissed'' 31) ''a''
   \<and> ''a'' \<notin> set (bucket ''dismissed''
         (get_engagement_summary (Parsed (one_event_each ''dismissed'' 31))))"
  by code_simp

text \<open>
  C6, amended.  For every topic with a non-empty title and a \<^verbatim>\<open>dismissed\<close> event in the
  log: the returned \<^verbatim>\<open>moderate_interest\<close> bucket never holds it, whatever its other
  signals; the list of dismissed topics computed before the cut holds it, and the
  returned \<^verbatim>\<open>dismissed\<close> bucket is the last 30 entries of that list; and the list of
  strong topics computed before the cut holds it whenever \<^verbatim>\<open>listen_complete\<close> was
  observed or its maximum \<^verbatim>\<open>play_pct\<close> is at least 75, the returned \<^verbatim>\<open>strong_interest\<close>
  bucket being the last 20 entries of that list.
\<close>

theorem dismissed_excludes_moderate_only:
  assumes "t \<noteq> []" and "observed ''dismissed'' evs t"
  shows "t \<notin> set (bucket ''moderate_interest'' (get_engagement_summary (Parsed evs)))
       \<and> t \<in> set (dismissed_topics (topic_signals evs))
       \<and> bucket ''dismissed'' (get_engagement_summary (Parsed evs)) =
            last_n 30 (dismissed_topics (topic_signals evs))
       \<and> (t \<in> set (strong_interest (topic_signals evs)) \<longleftrightarrow>
            observed ''listen_complete'' evs t \<or> 75 \<le> max_play_pct evs t)
       \<and> bucket ''strong_interest'' (get_engagement_summary (Parsed evs)) =
            last_n 20 (strong_interest (topic_signals evs))"
proof -
  have "t \<notin> set (moderate_interest (topic_signals evs))"
    using assms by (simp add: moderate_interest_iff)
  then have "t \<notin> set (bucket ''moderate_interest'' (get_engagement_summary (Parsed evs)))"
    using set_last_n_subset [of 20 "moderate_interest (topic_signals evs)"]
    by (auto simp only: bucket_moderate)
  moreover have "t \<in> set (dismissed_topics (topic_signals evs))"
    using assms by (simp add: dismissed_topics_iff)
  ultimately show ?thesis
    using strong_interest_iff [OF assms(1), of evs]
    by (simp only: bucket_strong bucket_dismissed simp_thms)
qed

theorem dismissed_excludes_moderate_only_witness:
  "''T'' \<noteq> []
   \<and> observed ''dismissed''
        [new_event ''t1'' ''dismissed'' ''T'' None None,
         new_event ''t2'' ''play_pct'' ''T'' None (Some 90)] ''T''
   \<and> max_play_pct
        [new_event ''t1'' ''dismissed'' ''T'' None None,
         new_event ''t2'' ''play_pct'' ''T'' None (Some 90)] ''T'' = 90
   \<and> ''T'' \<notin> set (bucket ''moderate_interest'' (get_engagement_summary (Parsed
        [new_event ''t1'' ''dismissed'' ''T'' None None,
         new_event ''t2'' ''play_pct'' ''T'' None (Some 90)])))
   \<and> ''T'' \<in> set (dismissed_topics (topic_signals
        [new_event ''t1'' ''dismissed'' ''T'' None None,
         new_event ''t2'' ''play_pct'' ''T'' None (Some 90)]))
   \<and> ''T'' \<in> set (strong_interest (topic_signals
        [new_event ''t1'' ''dismissed'' ''T'' None None,
         new_event ''t2'' ''play_pct'' ''T'' None (Some 90)]))"
proof -
  let ?ex = "[new_event ''t1'' ''dismissed'' ''T'' None None,
              new_event ''t2'' ''play_pct'' ''T'' None (Some 90)]"
  have ne: "''T'' \<noteq> []" by simp
  have o: "observed ''dismissed'' ?ex ''T''"
    by (simp add: observed_def new_event_def get_or_def)
  have m: "max_play_pct ?ex ''T'' = 90"
    by (simp add: max_play_pct_def new_event_def get_or_def)
  note th = dismissed_excludes_moderate_only [OF ne o]
  have s: "''T'' \<in> set (strong_interest (topic_signals ?ex))"
    using th m by simp
  from th have b: "''T'' \<notin> set (bucket ''moderate_interest'' (get_engagement_summary (Parsed ?ex)))"
      "''T'' \<in> set (dismissed_topics (topic_signals ?ex))"
    by blast+
  from ne o m s b show ?thesis by blast
qed

text \<open>
  C10.  When the event log file is absent or unparsable, or holds no event,
  \<^verbatim>\<open>get_engagement_summary\<close> returns the empty dictionary: it has no key, and is not the
  summary of three empty buckets.
\<close>

theorem empty_log_empty_summary:
  "get_engagement_summary Absent = []
   \<and> get_engagement_summary Unparsable = []
   \<and> get_engagement_summary (Parsed []) = []
   \<and> dom (map_of (get_engagement_summary (Parsed []))) = {}
   \<and> get_engagement_summary (Parsed []) \<noteq>
       [(''strong_interest'', []), (''moderate_interest'', []), (''dismissed'', [])]"
  by (simp add: get_engagement_summary_def load_engagement_def)

section \<open>Voice resolution: the claim\<close>

lemma first_exact_find:
  "first_exact voices q = map_option voice_id (find (exact_match q) voices)"
  by (induction voices) simp_all

lemma first_partial_find:
  "first_partial voices q = map_option voice_id (find (partial_match q) voices)"
  by (induction voices) simp_all

lemma starts_with_self: "starts_with s s"
  by (induction s) simp_all

lemma contains_self: "contains s s"
  by (cases s) (simp_all add: starts_with_self)

lemma name_match_is_partial: "lower (name v) = lower q \<Longrightarrow> partial_match q v"
  by (simp add: partial_match_def contains_self)

lemma find_Some_in: "find P xs = Some x \<Longrightarrow> x \<in> set xs \<and> P x"
  by (induction xs) (auto split: if_splits)

lemma find_cong_on: "(\<And>x. x \<in> set xs \<Longrightarrow> P x = Q x) \<Longrightarrow> find P xs = find Q xs"
  by (induction xs) simp_all

text \<open>
  C7, as stated, fails: the first loop tests the name and the id of each voice in one
  pass, so a voice whose id is the query wins over a later voice whose name is the query.
\<close>

theorem resolve_voice_id_before_name_counterexample:
  "resolve_voice_in
     [\<lparr>name = ''Alpha'', voice_id = ''bob'', category = None\<rparr>,
      \<lparr>name = ''Bob'', voice_id = ''v2'', category = None\<rparr>] ''bob'' = Some ''bob''
   \<and> resolve_voice_spec
     [\<lparr>name = ''Alpha'', voice_id = ''bob'', category = None\<rparr>,
      \<lparr>name = ''Bob'', voice_id = ''v2'', category = None\<rparr>] ''bob'' = Some ''v2''"
  by (simp add: resolve_voice_in_def resolve_voice_spec_def exact_match_def lower_def
      lower_char_def get_or_def)

text \<open>
  C7, amended.  For every voice catalog and every query, voice resolution returns the id
  of the first voice of the catalog whose name is the query up to case or whose id is the
  query; only if no voice matches in either way does it return the id of the first voice
  whose name contains the query up to case; and it returns unresolved when none apply.
  It follows the order name, id, substring of the specification whenever every voice
  whose id is the query also has the query as its name, or no voice has the query as its
  name.
\<close>

theorem resolve_voice_order:
  "(\<forall>i < length voices. exact_match q (voices ! i) \<longrightarrow> (\<forall>j < i. \<not> exact_match q (voices ! j))
       \<longrightarrow> resolve_voice_in voices q = Some (voice_id (voices ! i)))
   \<and> ((\<forall>v \<in> set voices. \<not> exact_match q v) \<longrightarrow>
       (\<forall>i < length voices. partial_match q (voices ! i) \<longrightarrow> (\<forall>j < i. \<not> partial_match q (voices ! j))
          \<longrightarrow> resolve_voice_in voices q = Some (voice_id (voices ! i))))
   \<and> (resolve_voice_in voices q = None \<longleftrightarrow>
        (\<forall>v \<in> set voices. \<not> exact_match q v \<and> \<not> partial_match q v))
   \<and> ((\<forall>v \<in> set voices. voice_id v = q \<longrightarrow> lower (name v) = lower q)
        \<or> (\<forall>v \<in> set voices. lower (name v) \<noteq> lower q)
       \<longrightarrow> resolve_voice_in voices q = resolve_voice_spec voices q)"
proof (intro conjI allI impI)
  fix i
  assume "i < length voices" "exact_match q (voices ! i)" "\<forall>j < i. \<not> exact_match q (voices ! j)"
  then have "find (exact_match q) voices = Some (voices ! i)"
    by (auto simp: find_Some_iff)
  then show "resolve_voice_in voices q = Some (voice_id (voices ! i))"
    by (simp add: resolve_voice_in_def first_exact_find)
next
  fix i
  assume none: "\<forall>v \<in> set voices. \<not> exact_match q v"
    and "i < length voices" "partial_match q (voices ! i)"
        "\<forall>j < i. \<not> partial_match q (voices ! j)"
  then have "find (partial_match q) voices = Some (voices ! i)"
    by (auto simp: find_Some_iff)
  moreover from none have "find (exact_match q) voices = None"
    by (simp add: find_None_iff)
  ultimately show "resolve_voice_in voices q = Some (voice_id (voices ! i))"
    by (simp add: resolve_voice_in_def first_exact_find first_partial_find)
next
  show "resolve_voice_in voices q = None \<longleftrightarrow>
          (\<forall>v \<in> set voices. \<not> exact_match q v \<and> \<not> partial_match q v)"
    by (auto simp: resolve_voice_in_def first_exact_find first_partial_find find_None_iff
        split: option.splits dest: find_Some_in)
next
  assume a: "(\<forall>v \<in> set voices. voice_id v = q \<longrightarrow> lower (name v) = lower q)
             \<or> (\<forall>v \<in> set voices. lower (name v) \<noteq> lower q)"
  have part: "find (\<lambda>v. contains (lower q) (lower (name v))) voices = find (partial_match q) voices"
    by (intro find_cong_on) (simp add: partial_match_def)
  from a show "resolve_voice_in voices q = resolve_voice_spec voices q"
  proof
    assume "\<forall>v \<in> set voices. voice_id v = q \<longrightarrow> lower (name v) = lower q"
    then have e: "find (exact_match q) voices = find (\<lambda>v. lower (name v) = lower q) voices"
      by (intro find_cong_on) (auto simp: exact_match_def)
    show ?thesis
    proof (cases "find (\<lambda>v. lower (name v) = lower q) voices")
      case (Some v)
      then show ?thesis
        by (simp add: resolve_voice_in_def resolve_voice_spec_def first_exact_find e)
    next
      case None
      with e have "find (exact_match q) voices = None" by simp
      then have "\<forall>v \<in> set voices. \<not> exact_match q v"
        by (simp add: find_None_iff)
      then have "find (\<lambda>v. voice_id v = q) voices = None"
        by (auto simp: find_None_iff exact_match_def)
      with None show ?thesis
        by (simp add: resolve_voice_in_def resolve_voice_spec_def first_exact_find
            first_partial_find e part split: option.splits)
    qed
  next
    assume n: "\<forall>v \<in> set voices. lower (name v) \<noteq> lower q"
    then have e: "find (exact_match q) voices = find (\<lambda>v. voice_id v = q) voices"
      by (intro find_cong_on) (auto simp: exact_match_def)
    from n have "find (\<lambda>v. lower (name v) = lower q) voices = None"
      by (simp add: find_None_iff)
    then show ?thesis
      by (simp add: resolve_voice_in_def resolve_voice_spec_def first_exact_find
          first_partial_find e part split: option.splits)
  qed
qed

theorem resolve_voice_order_witness:
  "resolve_voice_in
     [\<lparr>name = ''Alpha'', voice_id = ''bob'', category = None\<rparr>,
      \<lparr>name = ''Bob'', voice_id = ''v2'', category = None\<rparr>] ''bob'' = Some ''bob''
   \<and> resolve_voice_in
     [\<lparr>name = ''Alpha'', voice_id = ''v1'', category = None\<rparr>,
      \<lparr>name = ''Bobby'', voice_id = ''v2'', category = None\<rparr>] ''bob'' = Some ''v2''
   \<and> resolve_voice_in
     [\<lparr>name = ''Alpha'', voice_id = ''v1'', category = None\<rparr>] ''bob'' = None
   \<and> resolve_voice_in
     [\<lparr>name = ''Alpha'', voice_id = ''v1'', category = None\<rparr>,
      \<lparr>name = ''BOB'', voice_id = ''v2'', category = None\<rparr>] ''bob'' =
     resolve_voice_spec
     [\<lparr>name = ''Alpha'', voice_id = ''v1'', category = None\<rparr>,
      \<lparr>name = ''BOB'', voice_id = ''v2'', category = None\<rparr>] ''bob''"
proof -
  let ?a = "\<lparr>name = ''Alpha'', voice_id = ''bob'', category = None\<rparr>"
  let ?b = "\<lparr>name = ''Bob'', voice_id = ''v2'', category = None\<rparr>"
  let ?c = "\<lparr>name = ''Alpha'', voice_id = ''v1'', category = None\<rparr>"
  let ?d = "\<lparr>name = ''Bobby'', voice_id = ''v2'', category = None\<rparr>"
  let ?e = "\<lparr>name = ''BOB'', voice_id = ''v2'', category = None\<rparr>"
  have ev: "exact_match ''bob'' ?a" "\<not> exact_match ''bob'' ?c" "\<not> exact_match ''bob'' ?d"
    "partial_match ''bob'' ?d" "\<not> partial_match ''bob'' ?c" "lower (name ?e) = lower ''bob''"
    "voice_id ?c \<noteq> ''bob''" "voice_id ?e \<noteq> ''bob''"
    by (simp_all add: exact_match_def partial_match_def lower_def lower_char_def get_or_def)
  have 1: "resolve_voice_in [?a, ?b] ''bob'' = Some ''bob''"
    using resolve_voice_order [of "[?a, ?b]" "''bob''"] ev by force
  have 2: "resolve_voice_in [?c, ?d] ''bob'' = Some ''v2''"
    using resolve_voice_order [of "[?c, ?d]" "''bob''"] ev
    by (force simp: nth_Cons' less_Suc_eq)
  have 3: "resolve_voice_in [?c] ''bob'' = None"
    using resolve_voice_order [of "[?c]" "''bob''"] ev by force
  have 4: "resolve_voice_in [?c, ?e] ''bob'' = resolve_voice_spec [?c, ?e] ''bob''"
    using resolve_voice_order [of "[?c, ?e]" "''bob''"] ev by force
  from 1 2 3 4 show ?thesis by blast
qed

section \<open>Job registry: retention and queue clearing\<close>

lemma fold_delete_filter:
  "fold AList.delete ks jobs = filter (\<lambda>e. fst e \<notin> set ks) jobs"
proof (induction ks arbitrary: jobs)
  case Nil
  show ?case by simp
next
  case (Cons k ks)
  have "AList.delete k jobs = filter (\<lambda>e. fst e \<noteq> k) jobs"
    by (auto simp: AList.delete_eq intro: filter_cong)
  then show ?case
    by (auto simp: Cons.IH intro: filter_cong)
qed

lemma length_filter_keys:
  assumes "distinct (map fst xs)"
  shows "length (filter (\<lambda>e. fst e \<in> A) xs) = card (A \<inter> fst ` set xs)"
proof -
  have "filter (\<lambda>k. k \<in> A) (map fst xs) = map fst (filter (\<lambda>e. fst e \<in> A) xs)"
    by (simp add: filter_map comp_def)
  then have "length (filter (\<lambda>e. fst e \<in> A) xs) = length (filter (\<lambda>k. k \<in> A) (map fst xs))"
    by simp
  also have "\<dots> = card (set (filter (\<lambda>k. k \<in> A) (map fst xs)))"
  proof -
    have "distinct (filter (\<lambda>k. k \<in> A) (map fst xs))"
      using assms by (rule distinct_filter)
    then show ?thesis by (rule distinct_card [symmetric])
  qed
  also have "set (filter (\<lambda>k. k \<in> A) (map fst xs)) = A \<inter> fst ` set xs"
    by auto
  finally show ?thesis .
qed

lemma created_key_entry:
  "distinct (map fst jobs) \<Longrightarrow> e \<in> set jobs \<Longrightarrow> created_key jobs (fst e) = created_at (snd e)"
  by (cases e) (simp add: created_key_def)

lemma save_jobs_filter:
  "save_jobs jobs =
     (if 200 < length jobs then filter (\<lambda>e. fst e \<notin> set (evicted_keys jobs)) jobs else jobs)"
  by (simp add: save_jobs_def evicted_keys_def fold_delete_filter Let_def)

lemma evicted_keys_props:
  assumes "distinct (map fst jobs)"
  shows "distinct (evicted_keys jobs)" and "set (evicted_keys jobs) \<subseteq> fst ` set jobs"
    and "length (evicted_keys jobs) = length jobs - 200"
proof -
  show "distinct (evicted_keys jobs)"
    using assms by (simp add: evicted_keys_def)
  have "set (evicted_keys jobs) \<subseteq> set (sort_key (created_key jobs) (map fst jobs))"
    unfolding evicted_keys_def by (rule set_take_subset)
  then show "set (evicted_keys jobs) \<subseteq> fst ` set jobs" by simp
  show "length (evicted_keys jobs) = length jobs - 200"
    by (simp add: evicted_keys_def)
qed

lemma length_save_jobs:
  assumes "distinct (map fst jobs)"
  shows "length (save_jobs jobs) = min (length jobs) 200"
proof (cases "200 < length jobs")
  case False
  then show ?thesis by (simp add: save_jobs_filter)
next
  case True
  let ?E = "set (evicted_keys jobs)"
  have "length (filter (\<lambda>e. fst e \<in> ?E) jobs) = card (?E \<inter> fst ` set jobs)"
    by (rule length_filter_keys [OF assms])
  also have "?E \<inter> fst ` set jobs = ?E"
    using evicted_keys_props(2) [OF assms] by blast
  also have "card ?E = length jobs - 200"
    using evicted_keys_props(1,3) [OF assms] by (simp add: distinct_card)
  finally have gone: "length (filter (\<lambda>e. fst e \<in> ?E) jobs) = length jobs - 200" .
  have "length (filter (\<lambda>e. fst e \<in> ?E) jobs) + length (filter (\<lambda>e. fst e \<notin> ?E) jobs)
          = length jobs"
    by (rule sum_length_filter_compl)
  with gone True show ?thesis
    by (simp add: save_jobs_filter)
qed

lemma evicted_are_oldest:
  assumes d: "distinct (map fst jobs)"
    and e: "e \<in> set jobs" "fst e \<in> set (evicted_keys jobs)"
    and k: "k \<in> set jobs" "fst k \<notin> set (evicted_keys jobs)"
  shows "created_at (snd e) \<le> created_at (snd k)"
proof -
  let ?f = "created_key jobs"
  let ?s = "sort_key ?f (map fst jobs)"
  let ?m = "length jobs - 200"
  have "sorted (map ?f (take ?m ?s @ drop ?m ?s))"
    by (simp only: append_take_drop_id sorted_sort_key)
  then have "\<forall>x \<in> set (map ?f (take ?m ?s)). \<forall>y \<in> set (map ?f (drop ?m ?s)). x \<le> y"
    unfolding map_append sorted_append by blast
  then have le: "\<forall>x \<in> set (take ?m ?s). \<forall>y \<in> set (drop ?m ?s). ?f x \<le> ?f y"
    by (simp only: set_map ball_simps)
  have "fst k \<in> set ?s" using k(1) by simp
  then have "fst k \<in> set (take ?m ?s) \<union> set (drop ?m ?s)"
    by (simp only: set_append [symmetric] append_take_drop_id)
  with k(2) have "fst k \<in> set (drop ?m ?s)"
    by (simp add: evicted_keys_def)
  moreover have "fst e \<in> set (take ?m ?s)"
    using e(2) by (simp add: evicted_keys_def)
  ultimately have "?f (fst e) \<le> ?f (fst k)" using le by blast
  then show ?thesis
    using created_key_entry [OF d e(1)] created_key_entry [OF d k(1)] by simp
qed

lemma save_jobs_distinct: "distinct (map fst jobs) \<Longrightarrow> distinct (map fst (save_jobs jobs))"
  by (simp add: save_jobs_filter distinct_map_filter)

lemma save_jobs_ok: "distinct (map fst jobs) \<Longrightarrow> registry_ok (save_jobs jobs)"
  by (simp add: registry_ok_def save_jobs_distinct length_save_jobs)

lemma save_jobs_small: "length jobs \<le> 200 \<Longrightarrow> save_jobs jobs = jobs"
  by (simp add: save_jobs_def)

lemma evict_one:
  assumes d: "distinct (map fst jobs)" and n: "length jobs = 201"
  shows "\<exists>e \<in> set jobs. save_jobs jobs = filter (\<lambda>x. x \<noteq> e) jobs
           \<and> (\<forall>x \<in> set jobs. created_at (snd e) \<le> created_at (snd x))"
proof -
  have "length (evicted_keys jobs) = 1"
    using evicted_keys_props(3) [OF d] n by simp
  then obtain k0 where k0: "evicted_keys jobs = [k0]"
    by (cases "evicted_keys jobs") simp_all
  with evicted_keys_props(2) [OF d] obtain e where e: "e \<in> set jobs" "fst e = k0"
    by auto
  have uniq: "\<And>x. x \<in> set jobs \<Longrightarrow> fst x = k0 \<longleftrightarrow> x = e"
    using d e by (metis eq_key_imp_eq_value prod.collapse)
  have "save_jobs jobs = filter (\<lambda>x. fst x \<noteq> k0) jobs"
    using n k0 by (simp add: save_jobs_filter)
  also have "\<dots> = filter (\<lambda>x. x \<noteq> e) jobs"
    by (rule filter_cong) (simp_all add: uniq)
  finally have 1: "save_jobs jobs = filter (\<lambda>x. x \<noteq> e) jobs" .
  have 2: "created_at (snd e) \<le> created_at (snd x)" if "x \<in> set jobs" for x
  proof (cases "x = e")
    case True
    then show ?thesis by simp
  next
    case False
    with that have "fst x \<notin> set (evicted_keys jobs)" by (simp add: k0 uniq)
    with evicted_are_oldest [OF d e(1) _ that] e(2) k0 show ?thesis by simp
  qed
  from e(1) 1 2 show ?thesis by blast
qed

lemma update_distinct: "distinct (map fst jobs) \<Longrightarrow> distinct (map fst (AList.update k v jobs))"
  by (simp add: distinct_update)

lemma length_update_fresh:
  "k \<notin> fst ` set jobs \<Longrightarrow> length (AList.update k v jobs) = Suc (length jobs)"
  by (induction jobs) auto

lemma length_update_present:
  "k \<in> fst ` set jobs \<Longrightarrow> length (AList.update k v jobs) = length jobs"
  by (induction jobs) auto

text \<open>
  C3.  A persist of a registry of more than 200 records leaves exactly 200 of them, in
  their order, and every evicted record was created no later than every record kept; a
  registry of at most 200 records is written as it is.  A registry of 201 records loses
  exactly one record, whose \<^verbatim>\<open>created_at\<close> is the earliest of all; so does
  \<^verbatim>\<open>create_job\<close> with a new identifier on a registry of 200 records.
\<close>

theorem retention_policy:
  assumes "distinct (map fst jobs)"
  shows "(200 < length jobs \<longrightarrow> length (save_jobs jobs) = 200)
       \<and> (length jobs \<le> 200 \<longrightarrow> save_jobs jobs = jobs)
       \<and> save_jobs jobs = filter (\<lambda>e. e \<in> set (save_jobs jobs)) jobs
       \<and> (\<forall>e \<in> set jobs - set (save_jobs jobs). \<forall>k \<in> set (save_jobs jobs).
            created_at (snd e) \<le> created_at (snd k))
       \<and> (length jobs = 201 \<longrightarrow>
            (\<exists>e \<in> set jobs. save_jobs jobs = filter (\<lambda>x. x \<noteq> e) jobs
               \<and> (\<forall>x \<in> set jobs. created_at (snd e) \<le> created_at (snd x))))
       \<and> (length jobs = 200 \<and> jid \<notin> fst ` set jobs \<longrightarrow>
            (\<exists>e \<in> set (AList.update jid (new_job jid jtype now1 now2 sid sep) jobs).
               create_job_doc jid jtype now1 now2 sid sep (Parsed jobs) =
                 filter (\<lambda>x. x \<noteq> e) (AList.update jid (new_job jid jtype now1 now2 sid sep) jobs)
               \<and> (\<forall>x \<in> set (AList.update jid (new_job jid jtype now1 now2 sid sep) jobs).
                    created_at (snd e) \<le> created_at (snd x))))"
proof (intro conjI impI)
  show "length (save_jobs jobs) = 200" if "200 < length jobs"
    using length_save_jobs [OF assms] that by simp
  show "save_jobs jobs = jobs" if "length jobs \<le> 200"
    using that by (rule save_jobs_small)
  have mem: "e \<in> set (save_jobs jobs) \<longleftrightarrow>
               (if 200 < length jobs then fst e \<notin> set (evicted_keys jobs) else True)"
    if "e \<in> set jobs" for e
    using that by (simp add: save_jobs_filter)
  show "save_jobs jobs = filter (\<lambda>e. e \<in> set (save_jobs jobs)) jobs"
  proof (cases "200 < length jobs")
    case True
    have "filter (\<lambda>e. e \<in> set (save_jobs jobs)) jobs =
            filter (\<lambda>e. fst e \<notin> set (evicted_keys jobs)) jobs"
      by (rule filter_cong) (simp_all add: mem True)
    with True show ?thesis by (simp add: save_jobs_filter)
  next
    case False
    then show ?thesis by (simp add: save_jobs_filter)
  qed
  show "\<forall>e \<in> set jobs - set (save_jobs jobs). \<forall>k \<in> set (save_jobs jobs).
          created_at (snd e) \<le> created_at (snd k)"
  proof (intro ballI)
    fix e k
    assume e: "e \<in> set jobs - set (save_jobs jobs)" and k: "k \<in> set (save_jobs jobs)"
    then have big: "200 < length jobs"
      by (auto simp: save_jobs_filter split: if_splits)
    from e big have "e \<in> set jobs" "fst e \<in> set (evicted_keys jobs)"
      by (auto simp: save_jobs_filter)
    moreover from k big have "k \<in> set jobs" "fst k \<notin> set (evicted_keys jobs)"
      by (auto simp: save_jobs_filter)
    ultimately show "created_at (snd e) \<le> created_at (snd k)"
      by (rule evicted_are_oldest [OF assms])
  qed
  show "\<exists>e \<in> set jobs. save_jobs jobs = filter (\<lambda>x. x \<noteq> e) jobs
          \<and> (\<forall>x \<in> set jobs. created_at (snd e) \<le> created_at (snd x))"
    if "length jobs = 201"
    using assms that by (rule evict_one)
  let ?new = "AList.update jid (new_job jid jtype now1 now2 sid sep) jobs"
  show "\<exists>e \<in> set ?new.
          create_job_doc jid jtype now1 now2 sid sep (Parsed jobs) = filter (\<lambda>x. x \<noteq> e) ?new
          \<and> (\<forall>x \<in> set ?new. created_at (snd e) \<le> created_at (snd x))"
    if "length jobs = 200 \<and> jid \<notin> fst ` set jobs"
  proof -
    have "distinct (map fst ?new)" using assms by (rule update_distinct)
    moreover have "length ?new = 201"
      using that by (simp add: length_update_fresh)
    ultimately show ?thesis
      unfolding create_job_doc_def load_jobs_def json_file.case by (rule evict_one)
  qed
qed

lemma numbered_registry_keys:
  "map fst (numbered_registry n) = map (\<lambda>i. replicate (Suc i) (CHR ''j'')) [0..<n]"
  by (simp add: numbered_registry_def numbered_job_def comp_def)

lemma numbered_registry_distinct: "distinct (map fst (numbered_registry n))"
proof -
  have "inj_on (\<lambda>i. replicate (Suc i) (CHR ''j'')) (set [0..<n])"
    by (rule inj_onI) (metis length_replicate nat.inject)
  then show ?thesis
    by (simp only: numbered_registry_keys distinct_map distinct_upt simp_thms)
qed

lemma numbered_registry_length: "length (numbered_registry n) = n"
  by (simp add: numbered_registry_def)

lemma created_at_numbered: "created_at (snd (numbered_job i)) = replicate (Suc i) (CHR ''1'')"
  by (simp add: numbered_job_def new_job_def)

theorem retention_policy_witness:
  "distinct (map fst (numbered_registry 201))
   \<and> length (numbered_registry 201) = 201
   \<and> length (save_jobs (numbered_registry 201)) = 200
   \<and> numbered_job 0 \<in> set (numbered_registry 201)
   \<and> numbered_job 0 \<notin> set (save_jobs (numbered_registry 201))
   \<and> save_jobs (numbered_registry 201) =
       filter (\<lambda>x. x \<noteq> numbered_job 0) (numbered_registry 201)"
proof -
  let ?r = "numbered_registry 201"
  have d: "distinct (map fst ?r)" by (rule numbered_registry_distinct)
  have n: "length ?r = 201" by (rule numbered_registry_length)
  note th = retention_policy [OF d, of "''new''" "''generate''" "''9''" "''9''" None None]
  from th n have len: "length (save_jobs ?r) = 200" by simp
  from th n obtain e where e: "e \<in> set ?r" "save_jobs ?r = filter (\<lambda>x. x \<noteq> e) ?r"
    "\<forall>x \<in> set ?r. created_at (snd e) \<le> created_at (snd x)"
    by auto
  have first: "numbered_job 0 \<in> set ?r"
    by (simp add: numbered_registry_def)
  from e(1) obtain i where i: "e = numbered_job i"
    by (auto simp: numbered_registry_def)
  from e(3) first have "created_at (snd e) \<le> created_at (snd (numbered_job 0))" by blast
  then have "replicate (Suc i) (CHR ''1'') \<le> [CHR ''1'']"
    by (simp add: i created_at_numbered)
  then have "i = 0" by (cases i) simp_all
  with i have "e = numbered_job 0" by simp
  with e(2) have "save_jobs ?r = filter (\<lambda>x. x \<noteq> numbered_job 0) ?r" by simp
  moreover from this have "numbered_job 0 \<notin> set (save_jobs ?r)" by simp
  ultimately show ?thesis using d n len first by blast
qed

text \<open>The loop of \<^verbatim>\<open>clear_queue\<close> over the keys.\<close>

lemma length_delete_present:
  "distinct (map fst r) \<Longrightarrow> map_of r k = Some j \<Longrightarrow> Suc (length (AList.delete k r)) = length r"
proof (induction r)
  case Nil
  then show ?case by simp
next
  case (Cons p r)
  show ?case
  proof (cases "fst p = k")
    case True
    with Cons.prems(1) have "k \<notin> fst ` set r" by auto
    then have "AList.delete k r = r"
      by (simp add: delete_id)
    with True show ?thesis by (cases p) (simp add: AList.delete_eq)
  next
    case False
    with Cons show ?thesis by (cases p) (auto simp: AList.delete_eq)
  qed
qed

lemma delete_as_filter: "AList.delete k r = filter (\<lambda>e. fst e \<noteq> k) r"
  by (auto simp: AList.delete_eq intro: filter_cong)

lemma delete_distinct: "distinct (map fst r) \<Longrightarrow> distinct (map fst (AList.delete k r))"
  by (simp add: delete_as_filter distinct_map_filter)

lemma kept_after_skip:
  assumes "\<And>e. e \<in> set r \<Longrightarrow> fst e = k \<Longrightarrow> \<not> removable (snd e)"
  shows "kept_after (k # ks) r = kept_after ks r"
  unfolding kept_after_def using assms by (intro filter_cong) auto

lemma kept_after_delete:
  assumes "\<And>e. e \<in> set r \<Longrightarrow> fst e = k \<Longrightarrow> removable (snd e)"
  shows "kept_after ks (AList.delete k r) = kept_after (k # ks) r"
  unfolding kept_after_def delete_as_filter filter_filter
  using assms by (intro filter_cong) auto

lemma kept_after_all:
  "kept_after (map fst r) r = filter (\<lambda>e. status (snd e) = Running \<or> status (snd e) = Done) r"
  unfolding kept_after_def
proof (rule filter_cong)
  fix e assume "e \<in> set r"
  then show "(\<not> (fst e \<in> set (map fst r) \<and> removable (snd e)))
              = (status (snd e) = Running \<or> status (snd e) = Done)"
    by (cases "status (snd e)") (auto simp: removable_def)
qed simp

lemma clear_fold:
  assumes "distinct (map fst r)"
  shows "fst (fold clear_step ks (r, n)) = kept_after ks r
       \<and> snd (fold clear_step ks (r, n)) + length (fst (fold clear_step ks (r, n))) = n + length r"
  using assms
proof (induction ks arbitrary: r n)
  case Nil
  show ?case by (simp add: kept_after_def)
next
  case (Cons k ks)
  show ?case
  proof (cases "map_of r k")
    case None
    then have step: "clear_step k (r, n) = (r, n)"
      by (simp add: clear_step_def)
    from None have "\<And>e. e \<in> set r \<Longrightarrow> fst e \<noteq> k"
      by (metis map_of_eq_None_iff image_eqI)
    then have "kept_after (k # ks) r = kept_after ks r"
      by (intro kept_after_skip) simp
    with Cons.IH [OF Cons.prems, of n, THEN conjunct1]
      Cons.IH [OF Cons.prems, of n, THEN conjunct2] show ?thesis
      by (simp add: step)
  next
    case (Some j)
    then have mem: "(k, j) \<in> set r" by (rule map_of_SomeD)
    have uniq: "\<And>e. e \<in> set r \<Longrightarrow> fst e = k \<Longrightarrow> snd e = j"
      using Cons.prems mem by (metis eq_key_imp_eq_value prod.collapse)
    show ?thesis
    proof (cases "removable j")
      case False
      with Some have step: "clear_step k (r, n) = (r, n)"
        by (simp add: clear_step_def)
      have "kept_after (k # ks) r = kept_after ks r"
        using False uniq by (intro kept_after_skip) simp
      with Cons.IH [OF Cons.prems, of n, THEN conjunct1]
        Cons.IH [OF Cons.prems, of n, THEN conjunct2] show ?thesis
        by (simp add: step)
    next
      case True
      with Some have step: "clear_step k (r, n) = (AList.delete k r, Suc n)"
        by (simp add: clear_step_def)
      have d': "distinct (map fst (AList.delete k r))"
        using Cons.prems by (rule delete_distinct)
      have len: "Suc (length (AList.delete k r)) = length r"
        using Cons.prems Some by (rule length_delete_present)
      have k: "kept_after ks (AList.delete k r) = kept_after (k # ks) r"
        using True uniq by (intro kept_after_delete) simp
      from Cons.IH [OF d', of "Suc n", THEN conjunct1] Cons.IH [OF d', of "Suc n", THEN conjunct2]
      have "fst (fold clear_step ks (AList.delete k r, Suc n)) = kept_after (k # ks) r"
        and "snd (fold clear_step ks (AList.delete k r, Suc n))
               + length (fst (fold clear_step ks (AList.delete k r, Suc n)))
             = Suc n + length (AList.delete k r)"
        by (simp_all add: k)
      with len show ?thesis
        by (simp add: step)
    qed
  qed
qed

lemma clear_queue_result:
  assumes "distinct (map fst (load_jobs f))"
  shows "clear_queue f =
           (length (load_jobs f) - length (filter (\<lambda>e. status (snd e) = Running \<or> status (snd e) = Done) (load_jobs f)),
            save_jobs (filter (\<lambda>e. status (snd e) = Running \<or> status (snd e) = Done) (load_jobs f)))"
proof -
  let ?r = "load_jobs f"
  let ?res = "fold clear_step (map fst ?r) (?r, 0)"
  let ?keep = "filter (\<lambda>e. status (snd e) = Running \<or> status (snd e) = Done) ?r"
  from clear_fold [OF assms, of "map fst ?r" 0, THEN conjunct1]
    clear_fold [OF assms, of "map fst ?r" 0, THEN conjunct2]
  have 1: "fst ?res = ?keep"
    and 2: "snd ?res + length (fst ?res) = 0 + length ?r"
    by (simp_all add: kept_after_all)
  from 2 have "snd ?res = length ?r - length (fst ?res)" by simp
  with 1 have "?res = (?keep, length ?r - length ?keep)"
    by (simp add: prod_eq_iff)
  then show ?thesis
    by (simp add: clear_queue_def Let_def)
qed

text \<open>
  C4.  On a registry document as the program keeps it, \<^verbatim>\<open>clear_queue\<close> writes the
  records whose status is \<^verbatim>\<open>running\<close> or \<^verbatim>\<open>done\<close>, in their order: it removes exactly
  the records whose status is \<^verbatim>\<open>queued\<close> or \<^verbatim>\<open>error\<close>; and the count it returns is the
  decrease of the registry's size.
\<close>

theorem clear_queue_removes_pending_and_failed:
  assumes "registry_ok (load_jobs f)"
  shows "snd (clear_queue f) =
           filter (\<lambda>e. status (snd e) = Running \<or> status (snd e) = Done) (load_jobs f)
       \<and> (\<forall>e \<in> set (load_jobs f).
            (e \<notin> set (snd (clear_queue f)) \<longleftrightarrow> status (snd e) = Queued \<or> status (snd e) = Error))
       \<and> fst (clear_queue f) = length (load_jobs f) - length (snd (clear_queue f))
       \<and> registry_ok (snd (clear_queue f))"
proof -
  let ?keep = "filter (\<lambda>e. status (snd e) = Running \<or> status (snd e) = Done) (load_jobs f)"
  from assms have d: "distinct (map fst (load_jobs f))" and l: "length (load_jobs f) \<le> 200"
    by (simp_all add: registry_ok_def)
  have kl: "length ?keep \<le> 200"
    using length_filter_le l by (rule le_trans)
  then have "save_jobs ?keep = ?keep" by (rule save_jobs_small)
  with clear_queue_result [OF d] have r: "clear_queue f = (length (load_jobs f) - length ?keep, ?keep)"
    by simp
  have "\<forall>e \<in> set (load_jobs f).
          (e \<notin> set ?keep \<longleftrightarrow> status (snd e) = Queued \<or> status (snd e) = Error)"
  proof
    fix e assume "e \<in> set (load_jobs f)"
    then show "e \<notin> set ?keep \<longleftrightarrow> status (snd e) = Queued \<or> status (snd e) = Error"
      by (cases "status (snd e)") auto
  qed
  moreover have "registry_ok ?keep"
    using d kl by (simp add: registry_ok_def distinct_map_filter)
  ultimately show ?thesis by (simp add: r)
qed

theorem clear_queue_removes_pending_and_failed_witness:
  "registry_ok (load_jobs (Parsed
      [(''a'', (new_job ''a'' ''generate'' ''1'' ''1'' None None)\<lparr>status := Done\<rparr>),
       (''b'', new_job ''b'' ''chat'' ''2'' ''2'' None None),
       (''c'', (new_job ''c'' ''generate'' ''3'' ''3'' None None)\<lparr>status := Error\<rparr>),
       (''d'', (new_job ''d'' ''generate'' ''4'' ''4'' None None)\<lparr>status := Running\<rparr>)]))
   \<and> clear_queue (Parsed
      [(''a'', (new_job ''a'' ''generate'' ''1'' ''1'' None None)\<lparr>status := Done\<rparr>),
       (''b'', new_job ''b'' ''chat'' ''2'' ''2'' None None),
       (''c'', (new_job ''c'' ''generate'' ''3'' ''3'' None None)\<lparr>status := Error\<rparr>),
       (''d'', (new_job ''d'' ''generate'' ''4'' ''4'' None None)\<lparr>status := Running\<rparr>)])
     = (2, [(''a'', (new_job ''a'' ''generate'' ''1'' ''1'' None None)\<lparr>status := Done\<rparr>),
            (''d'', (new_job ''d'' ''generate'' ''4'' ''4'' None None)\<lparr>status := Running\<rparr>)])"
proof -
  let ?f = "Parsed
      [(''a'', (new_job ''a'' ''generate'' ''1'' ''1'' None None)\<lparr>status := Done\<rparr>),
       (''b'', new_job ''b'' ''chat'' ''2'' ''2'' None None),
       (''c'', (new_job ''c'' ''generate'' ''3'' ''3'' None None)\<lparr>status := Error\<rparr>),
       (''d'', (new_job ''d'' ''generate'' ''4'' ''4'' None None)\<lparr>status := Running\<rparr>)]"
  have ok: "registry_ok (load_jobs ?f)"
    by (simp add: registry_ok_def load_jobs_def)
  from clear_queue_removes_pending_and_failed [OF ok]
  have "snd (clear_queue ?f) =
          [(''a'', (new_job ''a'' ''generate'' ''1'' ''1'' None None)\<lparr>status := Done\<rparr>),
           (''d'', (new_job ''d'' ''generate'' ''4'' ''4'' None None)\<lparr>status := Running\<rparr>)]"
    and "fst (clear_queue ?f) = 2"
    by (simp_all add: load_jobs_def new_job_def)
  with ok show ?thesis by (simp add: prod_eq_iff)
qed

section \<open>Topics of the day: the cache\<close>

lemma generate_topics_returns:
  "\<exists>topics. fst (generate_topics_via_claude e w) = Inr topics"
  by (simp add: generate_topics_via_claude_def fetch_ar_intelligence_def call_anthropic_def
      action_defs split: sum.splits prod.splits)

lemma generate_topics_fallback:
  assumes "anthropic_api_key e = [] \<or> reply_unusable (anthropic e (length (calls w) + 2) False)"
  shows "fst (generate_topics_via_claude e w) = Inr FALLBACK_TOPICS"
  using assms
  by (auto simp: generate_topics_via_claude_def fetch_ar_intelligence_def call_anthropic_def
      action_defs reply_unusable_def split: sum.splits prod.splits)

lemma generate_topics_world:
  "topics_cache (snd (generate_topics_via_claude e w)) = topics_cache w
   \<and> count_calls GenerateTopics (snd (generate_topics_via_claude e w)) = count_calls GenerateTopics w + 1
   \<and> count_calls (Anthropic True) (snd (generate_topics_via_claude e w)) = count_calls (Anthropic True) w
   \<and> count_calls (Anthropic False) (snd (generate_topics_via_claude e w)) =
       count_calls (Anthropic False) w + (if anthropic_api_key e = [] then 0 else 1)"
  by (simp add: generate_topics_via_claude_def fetch_ar_intelligence_def call_anthropic_def
      action_defs count_calls_def split: sum.splits prod.splits)

lemma get_topics_hit:
  assumes "cached_topics (today_iso e (length (calls w))) (topics_cache w) = Some topics"
  shows "get_topics_for_today e w = (Inr topics, w\<lparr>calls := calls w @ [Today]\<rparr>)"
  using assms by (simp add: get_topics_for_today_def action_defs)

lemma get_topics_miss:
  assumes "cached_topics (today_iso e (length (calls w))) (topics_cache w) = None"
    and "generate_topics_via_claude e (w\<lparr>calls := calls w @ [Today]\<rparr>) = (Inr topics, w')"
  shows "get_topics_for_today e w =
           (Inr topics,
            w'\<lparr>topics_cache :=
                 Parsed \<lparr>c_date = Some (today_iso e (length (calls w))), c_topics = Some topics\<rparr>\<rparr>)"
  using assms by (simp add: get_topics_for_today_def action_defs)

lemma get_topics_result:
  "\<exists>topics.
     fst (get_topics_for_today e w) = Inr topics
     \<and> cached_topics (today_iso e (length (calls w))) (topics_cache (snd (get_topics_for_today e w)))
         = Some topics
     \<and> count_calls GenerateTopics (snd (get_topics_for_today e w)) \<le> count_calls GenerateTopics w + 1
     \<and> count_calls (Anthropic False) (snd (get_topics_for_today e w))
         \<le> count_calls (Anthropic False) w + 1
     \<and> count_calls (Anthropic True) (snd (get_topics_for_today e w)) = count_calls (Anthropic True) w"
proof (cases "cached_topics (today_iso e (length (calls w))) (topics_cache w)")
  case (Some topics)
  then show ?thesis
    by (simp add: get_topics_hit count_calls_def)
next
  case None
  let ?w = "w\<lparr>calls := calls w @ [Today]\<rparr>"
  obtain topics where t: "fst (generate_topics_via_claude e ?w) = Inr topics"
    using generate_topics_returns by blast
  then have g: "generate_topics_via_claude e ?w = (Inr topics, snd (generate_topics_via_claude e ?w))"
    by (simp add: prod_eq_iff)
  have c: "count_calls c ?w = count_calls c w" if "c \<noteq> Today" for c
    using that by (simp add: count_calls_def)
  show ?thesis
    using generate_topics_world [of e ?w]
    by (simp add: get_topics_miss [OF None g] cached_topics_def c count_calls_def)
qed

lemma get_topics_regenerates:
  assumes "cached_topics (today_iso e (length (calls w))) (topics_cache w) = None"
  shows "count_calls GenerateTopics (snd (get_topics_for_today e w)) = count_calls GenerateTopics w + 1
       \<and> count_calls (Anthropic False) (snd (get_topics_for_today e w)) =
           count_calls (Anthropic False) w + (if anthropic_api_key e = [] then 0 else 1)"
proof -
  let ?w = "w\<lparr>calls := calls w @ [Today]\<rparr>"
  obtain topics where t: "fst (generate_topics_via_claude e ?w) = Inr topics"
    using generate_topics_returns by blast
  then have g: "generate_topics_via_claude e ?w = (Inr topics, snd (generate_topics_via_claude e ?w))"
    by (simp add: prod_eq_iff)
  show ?thesis
    using generate_topics_world [of e ?w]
    by (simp add: get_topics_miss [OF assms g] count_calls_def)
qed

lemma cached_other_day:
  "cached_topics d f = Some topics \<Longrightarrow> d' \<noteq> d \<Longrightarrow> cached_topics d' f = None"
  by (auto simp: cached_topics_def split: json_file.splits if_splits)

text \<open>
  C8.  Two calls of \<^verbatim>\<open>get_topics_for_today\<close> one after the other on the same date enter
  \<^verbatim>\<open>generate_topics_via_claude\<close> at most once between them, and so call the model at
  most once; the second call enters it not at all, returns the topics of the first, which
  are the cached ones, and leaves the cache as it is.  The next call, on another date,
  enters \<^verbatim>\<open>generate_topics_via_claude\<close> again, which calls the model when an API key
  is set.
\<close>

theorem topics_cached_for_the_day:
  assumes "today_iso e (length (calls w0)) = d"
    and "today_iso e (length (calls (snd (get_topics_for_today e w0)))) = d"
  shows "\<exists>topics.
           fst (get_topics_for_today e w0) = Inr topics
         \<and> cached_topics d (topics_cache (snd (get_topics_for_today e w0))) = Some topics
         \<and> fst (get_topics_for_today e (snd (get_topics_for_today e w0))) = Inr topics
         \<and> topics_cache (snd (get_topics_for_today e (snd (get_topics_for_today e w0))))
             = topics_cache (snd (get_topics_for_today e w0))
         \<and> count_calls GenerateTopics (snd (get_topics_for_today e (snd (get_topics_for_today e w0))))
             = count_calls GenerateTopics (snd (get_topics_for_today e w0))
         \<and> count_calls GenerateTopics (snd (get_topics_for_today e (snd (get_topics_for_today e w0))))
             \<le> count_calls GenerateTopics w0 + 1
         \<and> count_calls (Anthropic False) (snd (get_topics_for_today e (snd (get_topics_for_today e w0))))
               + count_calls (Anthropic True) (snd (get_topics_for_today e (snd (get_topics_for_today e w0))))
             \<le> count_calls (Anthropic False) w0 + count_calls (Anthropic True) w0 + 1
         \<and> (today_iso e (length (calls (snd (get_topics_for_today e (snd (get_topics_for_today e w0)))))) \<noteq> d
              \<longrightarrow> count_calls GenerateTopics
                     (snd (get_topics_for_today e (snd (get_topics_for_today e (snd (get_topics_for_today e w0))))))
                   = count_calls GenerateTopics (snd (get_topics_for_today e (snd (get_topics_for_today e w0)))) + 1
                \<and> count_calls (Anthropic False)
                     (snd (get_topics_for_today e (snd (get_topics_for_today e (snd (get_topics_for_today e w0))))))
                   = count_calls (Anthropic False) (snd (get_topics_for_today e (snd (get_topics_for_today e w0))))
                     + (if anthropic_api_key e = [] then 0 else 1))"
proof -
  let ?w1 = "snd (get_topics_for_today e w0)"
  let ?w2 = "snd (get_topics_for_today e ?w1)"
  from get_topics_result [of e w0] assms(1) obtain topics where
    r1: "fst (get_topics_for_today e w0) = Inr topics"
    and c1: "cached_topics d (topics_cache ?w1) = Some topics"
    and g1: "count_calls GenerateTopics ?w1 \<le> count_calls GenerateTopics w0 + 1"
    and a1: "count_calls (Anthropic False) ?w1 \<le> count_calls (Anthropic False) w0 + 1"
    and b1: "count_calls (Anthropic True) ?w1 = count_calls (Anthropic True) w0"
    by auto
  from c1 assms(2) have hit: "cached_topics (today_iso e (length (calls ?w1))) (topics_cache ?w1) = Some topics"
    by simp
  have second: "get_topics_for_today e ?w1 = (Inr topics, ?w1\<lparr>calls := calls ?w1 @ [Today]\<rparr>)"
    using hit by (rule get_topics_hit)
  have r2: "fst (get_topics_for_today e ?w1) = Inr topics"
    and t2: "topics_cache ?w2 = topics_cache ?w1"
    and g2: "count_calls GenerateTopics ?w2 = count_calls GenerateTopics ?w1"
    and a2: "count_calls (Anthropic False) ?w2 = count_calls (Anthropic False) ?w1"
    and b2: "count_calls (Anthropic True) ?w2 = count_calls (Anthropic True) ?w1"
    by (simp_all add: second count_calls_def)
  have next_day: "count_calls GenerateTopics (snd (get_topics_for_today e ?w2))
                    = count_calls GenerateTopics ?w2 + 1
                 \<and> count_calls (Anthropic False) (snd (get_topics_for_today e ?w2))
                    = count_calls (Anthropic False) ?w2 + (if anthropic_api_key e = [] then 0 else 1)"
    if "today_iso e (length (calls ?w2)) \<noteq> d"
  proof -
    from c1 t2 have "cached_topics d (topics_cache ?w2) = Some topics" by simp
    then have "cached_topics (today_iso e (length (calls ?w2))) (topics_cache ?w2) = None"
      using that by (rule cached_other_day)
    then show ?thesis by (rule get_topics_regenerates)
  qed
  from r1 c1 r2 t2 g2 g1 a1 b1 a2 b2 next_day show ?thesis
    by (intro exI [of _ topics]) (simp only:, simp)
qed

theorem topics_cached_for_the_day_witness:
  "today_iso silent_env (length (calls empty_world)) = ''2026-01-01''
   \<and> today_iso silent_env (length (calls (snd (get_topics_for_today silent_env empty_world)))) = ''2026-01-01''
   \<and> fst (get_topics_for_today silent_env empty_world) = Inr FALLBACK_TOPICS
   \<and> fst (get_topics_for_today silent_env (snd (get_topics_for_today silent_env empty_world)))
       = Inr FALLBACK_TOPICS
   \<and> count_calls GenerateTopics
       (snd (get_topics_for_today silent_env (snd (get_topics_for_today silent_env empty_world)))) = 1"
proof -
  have w1: "get_topics_for_today silent_env empty_world =
              (Inr FALLBACK_TOPICS,
               empty_world\<lparr>calls := [Today, GenerateTopics],
                 topics_cache := Parsed \<lparr>c_date = Some ''2026-01-01'', c_topics = Some FALLBACK_TOPICS\<rparr>\<rparr>)"
    by (simp add: get_topics_for_today_def generate_topics_via_claude_def action_defs
        silent_env_def empty_world_def cached_topics_def)
  have d0: "today_iso silent_env (length (calls empty_world)) = ''2026-01-01''"
    by (simp add: silent_env_def empty_world_def)
  have d1: "today_iso silent_env (length (calls (snd (get_topics_for_today silent_env empty_world))))
              = ''2026-01-01''"
    by (simp add: w1) (simp add: silent_env_def)
  from topics_cached_for_the_day [OF d0 d1] obtain topics where
    t: "fst (get_topics_for_today silent_env empty_world) = Inr topics"
       "fst (get_topics_for_today silent_env (snd (get_topics_for_today silent_env empty_world))) = Inr topics"
       "count_calls GenerateTopics
          (snd (get_topics_for_today silent_env (snd (get_topics_for_today silent_env empty_world))))
        = count_calls GenerateTopics (snd (get_topics_for_today silent_env empty_world))"
    by blast
  from t(1) have "topics = FALLBACK_TOPICS" by (simp add: w1)
  moreover have "count_calls GenerateTopics (snd (get_topics_for_today silent_env empty_world)) = 1"
    by (simp add: w1 count_calls_def)
  ultimately show ?thesis using d0 d1 t by simp
qed

text \<open>
  C9.  When the cache holds no topics for today and the generation fails (no API key, or
  the call to the model, the fourth reading of the outside world in
  \<^verbatim>\<open>get_topics_for_today\<close>, raises or returns a text that does not parse),
  \<^verbatim>\<open>get_topics_for_today\<close> returns \<^verbatim>\<open>FALLBACK_TOPICS\<close> and writes them to the cache
  with today's date; every later call on that date, on that cache, returns
  \<^verbatim>\<open>FALLBACK_TOPICS\<close> and reads nothing of the outside world but the date.
\<close>

theorem fallback_topics_are_cached:
  assumes "today_iso e (length (calls w)) = d"
    and "cached_topics d (topics_cache w) = None"
    and "anthropic_api_key e = [] \<or> reply_unusable (anthropic e (length (calls w) + 3) False)"
  shows "fst (get_topics_for_today e w) = Inr FALLBACK_TOPICS
       \<and> topics_cache (snd (get_topics_for_today e w)) =
           Parsed \<lparr>c_date = Some d, c_topics = Some FALLBACK_TOPICS\<rparr>
       \<and> (\<forall>w'. topics_cache w' = topics_cache (snd (get_topics_for_today e w))
               \<and> today_iso e (length (calls w')) = d
             \<longrightarrow> get_topics_for_today e w' = (Inr FALLBACK_TOPICS, w'\<lparr>calls := calls w' @ [Today]\<rparr>))"
proof -
  let ?w = "w\<lparr>calls := calls w @ [Today]\<rparr>"
  have "anthropic_api_key e = [] \<or> reply_unusable (anthropic e (length (calls ?w) + 2) False)"
    using assms(3) by (simp add: numeral_3_eq_3 numeral_2_eq_2)
  then have "fst (generate_topics_via_claude e ?w) = Inr FALLBACK_TOPICS"
    by (rule generate_topics_fallback)
  then have g: "generate_topics_via_claude e ?w =
                  (Inr FALLBACK_TOPICS, snd (generate_topics_via_claude e ?w))"
    by (simp add: prod_eq_iff)
  have miss: "cached_topics (today_iso e (length (calls w))) (topics_cache w) = None"
    using assms(1,2) by simp
  note run = get_topics_miss [OF miss g]
  have 1: "fst (get_topics_for_today e w) = Inr FALLBACK_TOPICS"
    by (simp add: run)
  have 2: "topics_cache (snd (get_topics_for_today e w)) =
             Parsed \<lparr>c_date = Some d, c_topics = Some FALLBACK_TOPICS\<rparr>"
    by (simp add: run assms(1))
  have 3: "get_topics_for_today e w' = (Inr FALLBACK_TOPICS, w'\<lparr>calls := calls w' @ [Today]\<rparr>)"
    if "topics_cache w' = topics_cache (snd (get_topics_for_today e w))
        \<and> today_iso e (length (calls w')) = d" for w'
  proof (rule get_topics_hit)
    show "cached_topics (today_iso e (length (calls w'))) (topics_cache w') = Some FALLBACK_TOPICS"
      using that by (simp add: 2 cached_topics_def)
  qed
  from 1 2 3 show ?thesis by blast
qed

theorem fallback_topics_are_cached_witness:
  "today_iso silent_env (length (calls empty_world)) = ''2026-01-01''
   \<and> cached_topics ''2026-01-01'' (topics_cache empty_world) = None
   \<and> anthropic_api_key silent_env = []
   \<and> fst (get_topics_for_today silent_env empty_world) = Inr FALLBACK_TOPICS
   \<and> topics_cache (snd (get_topics_for_today silent_env empty_world)) =
       Parsed \<lparr>c_date = Some ''2026-01-01'', c_topics = Some FALLBACK_TOPICS\<rparr>
   \<and> get_topics_for_today silent_env (snd (get_topics_for_today silent_env empty_world)) =
       (Inr FALLBACK_TOPICS,
        (snd (get_topics_for_today silent_env empty_world))
          \<lparr>calls := calls (snd (get_topics_for_today silent_env empty_world)) @ [Today]\<rparr>)"
proof -
  have d0: "today_iso silent_env (length (calls empty_world)) = ''2026-01-01''"
    by (simp add: silent_env_def empty_world_def)
  have m: "cached_topics ''2026-01-01'' (topics_cache empty_world) = None"
    by (simp add: cached_topics_def empty_world_def)
  have k: "anthropic_api_key silent_env = []"
    by (simp add: silent_env_def)
  note th = fallback_topics_are_cached [OF d0 m disjI1 [OF k]]
  have c1: "calls (snd (get_topics_for_today silent_env empty_world)) = [Today, GenerateTopics]"
    by (simp add: get_topics_for_today_def generate_topics_via_claude_def action_defs
        silent_env_def empty_world_def cached_topics_def)
  have d1: "today_iso silent_env (length (calls (snd (get_topics_for_today silent_env empty_world))))
              = ''2026-01-01''"
    by (simp add: c1) (simp add: silent_env_def)
  from th d1 have "get_topics_for_today silent_env (snd (get_topics_for_today silent_env empty_world)) =
       (Inr FALLBACK_TOPICS,
        (snd (get_topics_for_today silent_env empty_world))
          \<lparr>calls := calls (snd (get_topics_for_today silent_env empty_world)) @ [Today]\<rparr>)"
    by blast
  with th d0 m k show ?thesis by blast
qed

section \<open>Status transitions of the workers\<close>

subsection \<open>The order of the statuses\<close>

lemma forward_refl: "forward a a"
  by (simp add: forward_def)

lemma forward_trans: "forward a b \<Longrightarrow> forward b c \<Longrightarrow> forward a c"
  by (auto simp: forward_def)

lemma sorted_wrt_snoc_last:
  assumes "xs \<noteq> []" and "sorted_wrt forward xs" and "forward (last xs) y"
  shows "sorted_wrt forward (xs @ [y])"
  using assms
proof (induction xs rule: list_nonempty_induct)
  case (single x)
  then show ?case by simp
next
  case (cons x xs)
  from cons.prems(1) have head: "\<forall>z \<in> set xs. forward x z" and tail: "sorted_wrt forward xs"
    by simp_all
  from cons.hyps have "last xs \<in> set xs" by simp
  with head have "forward x (last xs)" by blast
  moreover from cons.prems(2) cons.hyps have "forward (last xs) y" by simp
  ultimately have "forward x y" by (rule forward_trans)
  moreover have "sorted_wrt forward (xs @ [y])"
    using cons.IH tail \<open>forward (last xs) y\<close> by blast
  ultimately show ?case using head by (simp add: sorted_wrt_append)
qed

lemma monotonic_snoc:
  assumes "monotonic j (r # ds)" and "forward (status_in j (last (r # ds))) (status_in j d)"
  shows "monotonic j (r # ds @ [d])"
proof -
  have "sorted_wrt forward (map (status_in j) (r # ds) @ [status_in j d])"
  proof (rule sorted_wrt_snoc_last)
    show "map (status_in j) (r # ds) \<noteq> []" by simp
    show "sorted_wrt forward (map (status_in j) (r # ds))"
      using assms(1) by (simp only: monotonic_def)
    have "last (map (status_in j) (r # ds)) = status_in j (last (r # ds))"
      by (rule last_map) simp
    with assms(2) show "forward (last (map (status_in j) (r # ds))) (status_in j d)"
      by simp
  qed
  then show ?thesis by (simp add: monotonic_def)
qed

lemma monotonic_final:
  assumes m: "monotonic j tr" and k: "\<forall>d \<in> set tr. map fst d = ks"
  shows "final_status j tr"
  unfolding final_status_def
proof (intro allI impI)
  fix b a
  assume b: "b < length tr" and a: "a \<le> b"
    and t: "status_in j (tr ! a) = Some Done \<or> status_in j (tr ! a) = Some Error"
  show "status_in j (tr ! b) = status_in j (tr ! a)"
  proof (cases "a = b")
    case True
    then show ?thesis by simp
  next
    case False
    with a have "a < b" by simp
    with m b have f: "forward (status_in j (tr ! a)) (status_in j (tr ! b))"
      by (simp add: monotonic_def sorted_wrt_iff_nth_less)
    from k b a have "map fst (tr ! a) = map fst (tr ! b)" by simp
    then have "(map_of (tr ! a) j = None) = (map_of (tr ! b) j = None)"
      by (metis map_of_eq_None_iff set_map)
    with t have "status_in j (tr ! b) \<noteq> None"
      by (auto simp: status_in_def)
    with f t show ?thesis by (auto simp: forward_def)
  qed
qed

subsection \<open>What a write of the registry does to one job\<close>

lemma map_of_filter_keys:
  "map_of (filter (\<lambda>e. fst e \<notin> A) r) j = (if j \<in> A then None else map_of r j)"
  by (induction r) auto

lemma status_in_save_jobs:
  "status_in j (save_jobs r) = None \<or> status_in j (save_jobs r) = status_in j r"
  by (simp add: save_jobs_filter status_in_def map_of_filter_keys)

lemma status_in_update:
  "status_in j (AList.update k v r) = (if j = k then Some (status v) else status_in j r)"
  by (simp add: status_in_def update_conv')

lemma keys_update_present:
  "map_of r k = Some v \<Longrightarrow> map fst (AList.update k v' r) = map fst r"
  by (induction r) (auto split: if_splits)

lemma update_job_doc_status:
  assumes "update_job_doc now k kw f = Some doc"
  shows "status_in j doc = None
       \<or> status_in j doc =
           (if j = k
            then map_option (\<lambda>s. get_or (set_status kw) s) (status_in j (load_jobs f))
            else status_in j (load_jobs f))"
proof -
  from assms obtain jb where jb: "map_of (load_jobs f) k = Some jb"
    and doc: "doc = save_jobs (AList.update k (merge_fields now kw jb) (load_jobs f))"
    by (auto simp: update_job_doc_def Let_def split: option.splits)
  have "status_in j (AList.update k (merge_fields now kw jb) (load_jobs f)) =
          (if j = k
           then map_option (\<lambda>s. get_or (set_status kw) s) (status_in j (load_jobs f))
           else status_in j (load_jobs f))"
  proof (cases "j = k")
    case True
    have "status (merge_fields now kw jb) = get_or (set_status kw) (status jb)"
      by (simp add: merge_fields_def)
    moreover have "status_in k (load_jobs f) = Some (status jb)"
      using jb by (simp add: status_in_def)
    ultimately show ?thesis
      using True by (simp only: status_in_update) simp
  next
    case False
    then show ?thesis by (simp only: status_in_update) simp
  qed
  with status_in_save_jobs [of j "AList.update k (merge_fields now kw jb) (load_jobs f)"]
  show ?thesis by (simp only: doc)
qed

lemma update_job_doc_keys:
  assumes "update_job_doc now k kw f = Some doc" and "length (load_jobs f) \<le> 200"
  shows "map fst doc = map fst (load_jobs f)"
proof -
  from assms(1) obtain jb where jb: "map_of (load_jobs f) k = Some jb"
    and doc: "doc = save_jobs (AList.update k (merge_fields now kw jb) (load_jobs f))"
    by (auto simp: update_job_doc_def Let_def split: option.splits)
  have keys: "map fst (AList.update k (merge_fields now kw jb) (load_jobs f)) = map fst (load_jobs f)"
    using jb by (rule keys_update_present)
  then have "length (AList.update k (merge_fields now kw jb) (load_jobs f)) = length (load_jobs f)"
    by (metis length_map)
  with assms(2) have "save_jobs (AList.update k (merge_fields now kw jb) (load_jobs f))
                        = AList.update k (merge_fields now kw jb) (load_jobs f)"
    by (simp add: save_jobs_small)
  with keys doc show ?thesis by simp
qed

lemma update_job_run:
  "update_job e k kw w =
     (Inr (),
      (case update_job_doc (utc_now e (length (calls w))) k kw (jobs_file w) of
         None \<Rightarrow> w\<lparr>calls := calls w @ [ClockUtc]\<rparr>
       | Some doc \<Rightarrow> write_jobs doc (w\<lparr>calls := calls w @ [ClockUtc]\<rparr>)))"
  by (simp add: update_job_def action_defs split: option.splits)

lemma tracked_same_files:
  "tracked j w0 w \<Longrightarrow> jobs_file w' = jobs_file w \<Longrightarrow> jobs_writes w' = jobs_writes w
     \<Longrightarrow> tracked j w0 w'"
  by (simp add: tracked_def)

lemma tracked_start: "tracked j w0 w0"
  by (simp add: tracked_def monotonic_def)

lemma tracked_keys:
  assumes "tracked j w0 w" and "length (load_jobs (jobs_file w0)) \<le> 200"
  shows "map fst (load_jobs (jobs_file w)) = map fst (load_jobs (jobs_file w0))"
proof -
  from assms obtain ds where ds: "load_jobs (jobs_file w) = last (load_jobs (jobs_file w0) # ds)"
    "\<forall>d \<in> set ds. map fst d = map fst (load_jobs (jobs_file w0))"
    by (auto simp: tracked_def)
  show ?thesis
  proof (cases "ds = []")
    case True
    with ds(1) show ?thesis by simp
  next
    case False
    then have "last (load_jobs (jobs_file w0) # ds) \<in> set ds" by simp
    with ds show ?thesis by metis
  qed
qed

lemma tracked_write:
  assumes t: "tracked j w0 w"
    and f: "forward (status_in j (load_jobs (jobs_file w))) (status_in j doc)"
    and k: "length (load_jobs (jobs_file w0)) \<le> 200 \<Longrightarrow> map fst doc = map fst (load_jobs (jobs_file w0))"
    and w': "jobs_file w' = Parsed doc" "jobs_writes w' = jobs_writes w @ [doc]"
  shows "tracked j w0 w'"
proof -
  let ?r0 = "load_jobs (jobs_file w0)"
  from t obtain ds where ds: "jobs_writes w = jobs_writes w0 @ ds" "monotonic j (?r0 # ds)"
    "load_jobs (jobs_file w) = last (?r0 # ds)"
    "length ?r0 \<le> 200 \<longrightarrow> (\<forall>d \<in> set ds. map fst d = map fst ?r0)"
    unfolding tracked_def by blast
  have 1: "jobs_writes w' = jobs_writes w0 @ (ds @ [doc])"
    using w'(2) ds(1) by simp
  have 2: "monotonic j (?r0 # (ds @ [doc]))"
    using monotonic_snoc [OF ds(2)] f ds(3) by simp
  have 3: "load_jobs (jobs_file w') = last (?r0 # (ds @ [doc]))"
    using w'(1) by (simp add: load_jobs_def)
  have 4: "length ?r0 \<le> 200 \<longrightarrow> (\<forall>d \<in> set (ds @ [doc]). map fst d = map fst ?r0)"
    using ds(4) k by auto
  from 1 2 3 4 show ?thesis
    unfolding tracked_def by blast
qed

text \<open>
  One \<^verbatim>\<open>update_job\<close>: the trace stays monotonic when the status written to the tracked
  job, if any, is forward of the status it has.
\<close>

lemma tracked_update_job:
  assumes t: "tracked j w0 w"
    and s: "\<And>s s'. j = k \<Longrightarrow> set_status kw = Some s' \<Longrightarrow>
              status_in j (load_jobs (jobs_file w)) = Some s \<Longrightarrow> forward (Some s) (Some s')"
  shows "tracked j w0 (snd (update_job e k kw w))"
proof (cases "update_job_doc (utc_now e (length (calls w))) k kw (jobs_file w)")
  case None
  then show ?thesis
    using t by (simp add: update_job_run tracked_same_files [OF t])
next
  case (Some doc)
  let ?old = "status_in j (load_jobs (jobs_file w))"
  have f: "forward ?old (status_in j doc)"
  proof -
    from update_job_doc_status [OF Some, of j]
    consider "status_in j doc = None" | "j \<noteq> k" "status_in j doc = ?old"
      | "j = k" "status_in j doc = map_option (\<lambda>s. get_or (set_status kw) s) ?old"
      by (auto split: if_splits)
    then show ?thesis
    proof cases
      case 1
      then show ?thesis by (simp add: forward_def)
    next
      case 2
      then show ?thesis by (simp add: forward_refl)
    next
      case 3
      show ?thesis
      proof (cases ?old)
        case None
        with 3 show ?thesis by (simp add: forward_refl)
      next
        case (Some s0)
        show ?thesis
        proof (cases "set_status kw")
          case None
          with 3 Some show ?thesis by (simp add: get_or_def forward_refl)
        next
          case (Some s')
          with 3 \<open>?old = Some s0\<close> s [OF 3(1) Some \<open>?old = Some s0\<close>] show ?thesis
            by (simp add: get_or_def)
        qed
      qed
    qed
  qed
  have k: "map fst doc = map fst (load_jobs (jobs_file w0))"
    if "length (load_jobs (jobs_file w0)) \<le> 200"
  proof -
    from tracked_keys [OF t that] have keys: "map fst (load_jobs (jobs_file w)) = map fst (load_jobs (jobs_file w0))" .
    then have "length (load_jobs (jobs_file w)) = length (load_jobs (jobs_file w0))"
      by (metis length_map)
    with that have "length (load_jobs (jobs_file w)) \<le> 200" by simp
    from update_job_doc_keys [OF Some this] keys show ?thesis by simp
  qed
  show ?thesis
    using Some
    by (intro tracked_write [OF t f k]) (simp_all add: update_job_run write_jobs_def)
qed

lemma status_after_update_job:
  "status_in j (load_jobs (jobs_file (snd (update_job e k kw w)))) = None
   \<or> status_in j (load_jobs (jobs_file (snd (update_job e k kw w)))) =
       (if j = k
        then map_option (\<lambda>s. get_or (set_status kw) s) (status_in j (load_jobs (jobs_file w)))
        else status_in j (load_jobs (jobs_file w)))"
proof (cases "update_job_doc (utc_now e (length (calls w))) k kw (jobs_file w)")
  case None
  then have "map_of (load_jobs (jobs_file w)) k = None"
    by (auto simp: update_job_doc_def Let_def split: option.splits)
  with None show ?thesis
    by (simp add: update_job_run status_in_def)
next
  case (Some doc)
  with update_job_doc_status [OF Some, of j] show ?thesis
    by (simp add: update_job_run write_jobs_def load_jobs_def)
qed

subsection \<open>Rules for the triples\<close>

lemma outcomeI:
  assumes "\<And>err. fst r = Inl err \<Longrightarrow> E err (snd r)" and "\<And>x. fst r = Inr x \<Longrightarrow> Q x (snd r)"
  shows "case r of (Inl err, w') \<Rightarrow> E err w' | (Inr x, w') \<Rightarrow> Q x w'"
proof (cases r)
  case (Pair a w')
  with assms show ?thesis by (cases a) simp_all
qed

lemma valid_bind:
  assumes "valid P m R E" and "\<And>x. valid (R x) (f x) Q E"
  shows "valid P (bind m f) Q E"
  unfolding valid_def
proof (intro allI impI)
  fix w assume "P w"
  obtain a w' where mw: "m w = (a, w')" by (cases "m w")
  from assms(1) [unfolded valid_def, rule_format, OF \<open>P w\<close>] mw
  have r: "case a of Inl err \<Rightarrow> E err w' | Inr x \<Rightarrow> R x w'"
    by simp
  show "case bind m f w of (Inl err, w') \<Rightarrow> E err w' | (Inr x, w') \<Rightarrow> Q x w'"
  proof (cases a)
    case (Inl err)
    with r mw show ?thesis by (simp add: bind_def)
  next
    case (Inr x)
    with r have "R x w'" by simp
    then have "case f x w' of (Inl err, w'') \<Rightarrow> E err w'' | (Inr y, w'') \<Rightarrow> Q y w''"
      by (rule assms(2) [of x, unfolded valid_def, rule_format])
    with Inr mw show ?thesis by (simp add: bind_def)
  qed
qed

lemma valid_seq:
  assumes "valid P m (\<lambda>_. R) E" and "valid R n Q E"
  shows "valid P (seq m n) Q E"
  unfolding seq_def by (rule valid_bind [OF assms(1)]) (rule assms(2))

lemma valid_try:
  assumes "valid P m Q E'" and "\<And>err. valid (E' err) (h err) Q E"
  shows "valid P (try_except m h) Q E"
  unfolding valid_def
proof (intro allI impI)
  fix w assume "P w"
  obtain a w' where mw: "m w = (a, w')" by (cases "m w")
  from assms(1) [unfolded valid_def, rule_format, OF \<open>P w\<close>] mw
  have r: "case a of Inl err \<Rightarrow> E' err w' | Inr x \<Rightarrow> Q x w'"
    by simp
  show "case try_except m h w of (Inl err, w') \<Rightarrow> E err w' | (Inr x, w') \<Rightarrow> Q x w'"
  proof (cases a)
    case (Inr x)
    with r mw show ?thesis by (simp add: try_except_def)
  next
    case (Inl err)
    with r have "E' err w'" by simp
    then have "case h err w' of (Inl err', w'') \<Rightarrow> E err' w'' | (Inr y, w'') \<Rightarrow> Q y w''"
      by (rule assms(2) [of err, unfolded valid_def, rule_format])
    with Inl mw show ?thesis by (simp add: try_except_def)
  qed
qed

lemma valid_if:
  assumes "c \<Longrightarrow> valid P a Q E" and "\<not> c \<Longrightarrow> valid P b Q E"
  shows "valid P (if c then a else b) Q E"
  using assms by simp

lemma valid_case_prod:
  assumes "\<And>a b. valid P (g a b) Q E"
  shows "valid P (case_prod g x) Q E"
  using assms by (cases x) simp

lemma valid_weaken:
  assumes "valid P' m Q' E'" and "\<And>w. P w \<Longrightarrow> P' w" and "\<And>x w. Q' x w \<Longrightarrow> Q x w"
    and "\<And>err w. E' err w \<Longrightarrow> E err w"
  shows "valid P m Q E"
  unfolding valid_def
proof (intro allI impI)
  fix w assume "P w"
  then have "P' w" by (rule assms(2))
  then have "case m w of (Inl err, w') \<Rightarrow> E' err w' | (Inr x, w') \<Rightarrow> Q' x w'"
    by (rule assms(1) [unfolded valid_def, rule_format])
  then have r: "case fst (m w) of Inl err \<Rightarrow> E' err (snd (m w)) | Inr x \<Rightarrow> Q' x (snd (m w))"
    by (simp add: split_beta)
  show "case m w of (Inl err, w') \<Rightarrow> E err w' | (Inr x, w') \<Rightarrow> Q x w'"
  proof (rule outcomeI)
    fix err assume "fst (m w) = Inl err"
    with r show "E err (snd (m w))" by (simp add: assms(4))
  next
    fix x assume "fst (m w) = Inr x"
    with r show "Q x (snd (m w))" by (simp add: assms(3))
  qed
qed

lemma valid_run:
  assumes "valid P m Q E" and "P w"
  shows "case m w of (Inl err, w') \<Rightarrow> E err w' | (Inr x, w') \<Rightarrow> Q x w'"
  by (rule assms(1) [unfolded valid_def, rule_format, OF assms(2)])

subsection \<open>Actions that leave the registry alone\<close>

lemma quiet_ret: "quiet (ret x)"
  by (simp add: quiet_def ret_def)

lemma quiet_throw: "quiet (throw err)"
  by (simp add: quiet_def throw_def)

lemma quiet_gets: "quiet (gets g)"
  by (simp add: quiet_def gets_def)

lemma quiet_ask: "quiet (ask c g)"
  by (simp add: quiet_def ask_def)

lemma quiet_attempt: "quiet (attempt c g)"
  by (simp add: quiet_def attempt_def)

lemma quiet_modify:
  "(\<And>w. jobs_file (g w) = jobs_file w \<and> jobs_writes (g w) = jobs_writes w) \<Longrightarrow> quiet (modify g)"
  by (simp add: quiet_def modify_def)

lemma quiet_bind:
  assumes "quiet m" and "\<And>x. quiet (f x)"
  shows "quiet (bind m f)"
  unfolding quiet_def
proof
  fix w
  obtain a w' where mw: "m w = (a, w')" by (cases "m w")
  from assms(1) mw have w': "jobs_file w' = jobs_file w" "jobs_writes w' = jobs_writes w"
    unfolding quiet_def by (metis snd_conv)+
  show "jobs_file (snd (bind m f w)) = jobs_file w \<and> jobs_writes (snd (bind m f w)) = jobs_writes w"
  proof (cases a)
    case (Inl err)
    with mw w' show ?thesis by (simp add: bind_def)
  next
    case (Inr x)
    from assms(2) [of x] have "jobs_file (snd (f x w')) = jobs_file w'"
      "jobs_writes (snd (f x w')) = jobs_writes w'"
      unfolding quiet_def by simp_all
    with Inr mw w' show ?thesis by (simp add: bind_def)
  qed
qed

lemma quiet_seq: "quiet m \<Longrightarrow> quiet n \<Longrightarrow> quiet (seq m n)"
  by (simp add: seq_def quiet_bind)

lemma quiet_try:
  assumes "quiet m" and "\<And>err. quiet (h err)"
  shows "quiet (try_except m h)"
  unfolding quiet_def
proof
  fix w
  obtain a w' where mw: "m w = (a, w')" by (cases "m w")
  from assms(1) mw have w': "jobs_file w' = jobs_file w" "jobs_writes w' = jobs_writes w"
    unfolding quiet_def by (metis snd_conv)+
  show "jobs_file (snd (try_except m h w)) = jobs_file w
        \<and> jobs_writes (snd (try_except m h w)) = jobs_writes w"
  proof (cases a)
    case (Inr x)
    with mw w' show ?thesis by (simp add: try_except_def)
  next
    case (Inl err)
    from assms(2) [of err] have "jobs_file (snd (h err w')) = jobs_file w'"
      "jobs_writes (snd (h err w')) = jobs_writes w'"
      unfolding quiet_def by simp_all
    with Inl mw w' show ?thesis by (simp add: try_except_def)
  qed
qed

lemma quiet_require_key: "quiet (require_key k v)"
  by (cases v) (simp_all add: require_key_def quiet_ret quiet_throw)

lemma quiet_parsed: "quiet (parsed p)"
  by (cases p) (simp_all add: parsed_def quiet_ret quiet_throw)

lemma quiet_call_anthropic: "quiet (call_anthropic e web)"
  by (simp add: call_anthropic_def quiet_attempt)

lemma quiet_generate_grounded_script: "quiet (generate_grounded_script e topic depth brief)"
  unfolding generate_grounded_script_def
  by (intro quiet_bind quiet_try quiet_require_key quiet_call_anthropic quiet_parsed quiet_ret)

lemma quiet_build_trailer_script: "quiet (build_trailer_script topic)"
  unfolding build_trailer_script_def
  by (intro quiet_bind quiet_require_key quiet_ret)

lemma quiet_chat_to_topic: "quiet (chat_to_topic e message existing)"
  unfolding chat_to_topic_def
  by (intro quiet_bind quiet_call_anthropic quiet_parsed)

lemma quiet_get_elevenlabs_client: "quiet (get_elevenlabs_client e)"
  by (simp add: get_elevenlabs_client_def quiet_attempt)

lemma quiet_resolve_voice: "quiet (resolve_voice e client q)"
  unfolding resolve_voice_def by (intro quiet_bind quiet_attempt quiet_ret)

lemma quiet_generate_episode_audio: "quiet (generate_episode_audio e client script dir a b)"
  by (simp add: generate_episode_audio_def quiet_attempt)

lemma quiet_copy2: "quiet (copy2 e)"
  by (simp add: copy2_def quiet_attempt)

lemma quiet_st_size: "quiet (st_size e)"
  by (simp add: st_size_def quiet_attempt)

lemma quiet_log_production: "quiet (log_production e)"
  unfolding log_production_def
  by (intro quiet_bind quiet_gets quiet_ask quiet_modify) simp

lemma quiet_save_episode: "quiet (save_episode entry)"
  unfolding save_episode_def by (intro quiet_modify) simp

lemma quiet_change_series: "quiet (change_series sid g)"
  by (simp add: change_series_def quiet_def action_defs split: option.splits)

lemma total_change_series: "total (change_series sid g)"
  by (simp add: change_series_def total_def action_defs split: option.splits)

lemma quiet_job_id_at: "quiet (job_id_at entry i)"
  by (simp add: job_id_at_def quiet_ret quiet_throw)

subsection \<open>The invariant along a worker\<close>

lemma pending_subset: "pending j K w0 w \<Longrightarrow> K' \<subseteq> K \<Longrightarrow> pending j K' w0 w"
  by (auto simp: pending_def)

lemma pending_same_files:
  assumes "pending j K w0 w" and "jobs_file w' = jobs_file w" and "jobs_writes w' = jobs_writes w"
  shows "pending j K w0 w'"
  using assms tracked_same_files [of j w0 w w']
  by (simp add: pending_def open_job_def)

lemma pending_quiet:
  assumes "quiet m"
  shows "valid (pending j K w0) m (\<lambda>_. pending j K w0) (\<lambda>_. pending j K w0)"
  unfolding valid_def
proof (intro allI impI)
  fix w assume p: "pending j K w0 w"
  from assms have "jobs_file (snd (m w)) = jobs_file w" "jobs_writes (snd (m w)) = jobs_writes w"
    by (simp_all add: quiet_def)
  with p have "pending j K w0 (snd (m w))" by (rule pending_same_files)
  then show "case m w of (Inl err, w') \<Rightarrow> pending j K w0 w' | (Inr x, w') \<Rightarrow> pending j K w0 w'"
    by (intro outcomeI)
qed

lemma pending_quiet_total:
  assumes "quiet m" and "total m"
  shows "valid (pending j K w0) m (\<lambda>_. pending j K w0) E"
  unfolding valid_def
proof (intro allI impI)
  fix w assume p: "pending j K w0 w"
  from assms(1) have "jobs_file (snd (m w)) = jobs_file w" "jobs_writes (snd (m w)) = jobs_writes w"
    by (simp_all add: quiet_def)
  with p have "pending j K w0 (snd (m w))" by (rule pending_same_files)
  moreover from assms(2) obtain x where "fst (m w) = Inr x" unfolding total_def by blast
  ultimately show "case m w of (Inl err, w') \<Rightarrow> E err w' | (Inr x, w') \<Rightarrow> pending j K w0 w'"
    by (intro outcomeI) simp_all
qed

lemma update_job_returns: "fst (update_job e k kw w) = Inr ()"
  by (simp add: update_job_run)

lemma pending_update_keep:
  assumes k: "k \<in> K" and kw: "set_status kw = None \<or> set_status kw = Some Running"
  shows "valid (pending j K w0) (update_job e k kw) (\<lambda>_. pending j K w0) E"
  unfolding valid_def
proof (intro allI impI)
  fix w assume p: "pending j K w0 w"
  let ?w' = "snd (update_job e k kw w)"
  let ?old = "status_in j (load_jobs (jobs_file w))"
  from p have t: "tracked j w0 w" and o: "j \<in> K \<Longrightarrow> open_job j w"
    by (simp_all add: pending_def)
  have "tracked j w0 ?w'"
  proof (rule tracked_update_job [OF t])
    fix s s' assume "j = k" "set_status kw = Some s'" "?old = Some s"
    with kw k o show "forward (Some s) (Some s')"
      by (cases s) (auto simp: open_job_def forward_def)
  qed
  moreover have "open_job j ?w'" if "j \<in> K"
  proof (cases ?old)
    case None
    with status_after_update_job [of j e k kw w] show ?thesis
      by (auto simp: open_job_def split: if_splits)
  next
    case (Some s)
    with o [OF that] have "s \<noteq> Done" "s \<noteq> Error" by (simp_all add: open_job_def)
    with status_after_update_job [of j e k kw w] Some kw show ?thesis
      by (auto simp: open_job_def get_or_def split: if_splits)
  qed
  ultimately have "pending j K w0 ?w'" by (simp add: pending_def)
  then show "case update_job e k kw w of (Inl err, w') \<Rightarrow> E err w' | (Inr x, w') \<Rightarrow> pending j K w0 w'"
    using update_job_returns [of e k kw w] by (intro outcomeI) simp_all
qed

lemma pending_update_close:
  assumes k: "k \<in> K" and kw: "set_status kw \<noteq> Some Queued"
  shows "valid (pending j K w0) (update_job e k kw) (\<lambda>_. pending j (K - {k}) w0) E"
  unfolding valid_def
proof (intro allI impI)
  fix w assume p: "pending j K w0 w"
  let ?w' = "snd (update_job e k kw w)"
  let ?old = "status_in j (load_jobs (jobs_file w))"
  from p have t: "tracked j w0 w" and o: "j \<in> K \<Longrightarrow> open_job j w"
    by (simp_all add: pending_def)
  have "tracked j w0 ?w'"
  proof (rule tracked_update_job [OF t])
    fix s s' assume "j = k" "set_status kw = Some s'" "?old = Some s"
    with kw k o show "forward (Some s) (Some s')"
      by (cases s; cases s') (auto simp: open_job_def forward_def)
  qed
  moreover have "open_job j ?w'" if "j \<in> K - {k}"
    using status_after_update_job [of j e k kw w] o that
    by (auto simp: open_job_def split: if_splits)
  ultimately have "pending j (K - {k}) w0 ?w'" by (simp add: pending_def)
  then show "case update_job e k kw w of (Inl err, w') \<Rightarrow> E err w'
             | (Inr x, w') \<Rightarrow> pending j (K - {k}) w0 w'"
    using update_job_returns [of e k kw w] by (intro outcomeI) simp_all
qed

text \<open>The rules by the first action of a sequence, as the workers are written.\<close>

lemma seq_running:
  assumes "k \<in> K" and "valid (pending j K w0) n Q E"
  shows "valid (pending j K w0) (seq (update_job e k (kw_status Running p)) n) Q E"
  by (rule valid_seq [OF pending_update_keep assms(2)])
     (simp_all add: assms(1) kw_status_def no_fields_def)

lemma seq_progress:
  assumes "k \<in> K" and "valid (pending j K w0) n Q E"
  shows "valid (pending j K w0) (seq (update_job e k (kw_progress p)) n) Q E"
  by (rule valid_seq [OF pending_update_keep assms(2)])
     (simp_all add: assms(1) kw_progress_def no_fields_def)

lemma seq_quiet:
  assumes "quiet m" and "valid (pending j K w0) n Q (\<lambda>_. pending j K w0)"
  shows "valid (pending j K w0) (seq m n) Q (\<lambda>_. pending j K w0)"
  by (rule valid_seq [OF pending_quiet [OF assms(1)] assms(2)])

lemma bind_quiet:
  assumes "quiet m" and "\<And>x. valid (pending j K w0) (f x) Q (\<lambda>_. pending j K w0)"
  shows "valid (pending j K w0) (bind m f) Q (\<lambda>_. pending j K w0)"
  by (rule valid_bind [OF pending_quiet [OF assms(1)] assms(2)])

lemma bind_if_keep:
  assumes "valid (pending j K w0) a (\<lambda>_. pending j K w0) E"
    and "valid (pending j K w0) b (\<lambda>_. pending j K w0) E"
    and "\<And>x. valid (pending j K w0) (f x) Q E"
  shows "valid (pending j K w0) (bind (if c then a else b) f) Q E"
  by (rule valid_bind [where R = "\<lambda>_. pending j K w0"]) (simp_all add: assms)

lemma leaf_error:
  assumes "k \<in> K"
  shows "valid (pending j K w0) (update_job e k (kw_error msg)) (\<lambda>_. pending j (K - {k}) w0) E"
  by (rule pending_update_close) (simp_all add: assms kw_error_def no_fields_def)

lemma leaf_done:
  assumes "k \<in> K"
  shows "valid (pending j K w0) (update_job e k (kw_done p r)) (\<lambda>_. pending j (K - {k}) w0) E"
  by (rule pending_update_close) (simp_all add: assms kw_done_def no_fields_def)

lemma seq_done_change:
  assumes "k \<in> K"
  shows "valid (pending j K w0) (seq (update_job e k (kw_done p r)) (change_series sid g))
           (\<lambda>_. pending j (K - {k}) w0) E"
  by (rule valid_seq [OF leaf_done [OF assms]
        pending_quiet_total [OF quiet_change_series total_change_series]])

lemmas worker_steps =
  seq_running seq_progress
  seq_quiet [OF quiet_log_production] seq_quiet [OF quiet_generate_episode_audio]
  seq_quiet [OF quiet_copy2] seq_quiet [OF quiet_save_episode]
  bind_quiet [OF quiet_get_elevenlabs_client] bind_quiet [OF quiet_resolve_voice]
  bind_quiet [OF quiet_ask] bind_quiet [OF quiet_require_key] bind_quiet [OF quiet_st_size]
  bind_quiet [OF quiet_generate_grounded_script] bind_quiet [OF quiet_chat_to_topic]
  pending_quiet [OF quiet_build_trailer_script] pending_quiet [OF quiet_ret]
  bind_if_keep valid_if valid_case_prod leaf_error leaf_done seq_done_change

subsection \<open>The three workers\<close>

lemma valid_snd:
  assumes "valid P m (\<lambda>_. R) (\<lambda>_. R)" and "P w"
  shows "R (snd (m w))"
proof -
  obtain a w' where mw: "m w = (a, w')" by (cases "m w")
  with valid_run [OF assms] show ?thesis by (cases a) simp_all
qed

lemma run_generate_try_valid:
  assumes "jid \<in> K"
  shows "valid (pending j K w0)
           (run_generate_try e jid topic_data depth voice_alex voice_morgan is_trailer brief)
           (\<lambda>_. pending j (K - {jid}) w0) (\<lambda>_. pending j K w0)"
  unfolding run_generate_try_def Let_def
  by (intro worker_steps assms)

lemma run_generate_valid:
  assumes "jid \<in> K"
  shows "valid (pending j K w0)
           (run_generate e jid topic_data depth voice_alex voice_morgan is_trailer brief)
           (\<lambda>_. pending j (K - {jid}) w0) (\<lambda>_ _. False)"
  unfolding run_generate_def
  by (rule valid_try [OF run_generate_try_valid [OF assms] leaf_error [OF assms]])

lemma run_chat_try_valid:
  assumes "jid \<in> K"
  shows "valid (pending j K w0)
           (run_chat_try e jid message existing voice_alex voice_morgan)
           (\<lambda>_. pending j (K - {jid}) w0) (\<lambda>_. pending j K w0)"
  unfolding run_chat_try_def Let_def
  by (intro worker_steps assms)

lemma run_chat_valid:
  assumes "jid \<in> K"
  shows "valid (pending j K w0)
           (run_chat e jid message existing voice_alex voice_morgan)
           (\<lambda>_. pending j (K - {jid}) w0) (\<lambda>_ _. False)"
  unfolding run_chat_def
  by (rule valid_try [OF run_chat_try_valid [OF assms] leaf_error [OF assms]])

lemma run_series_episode_try_valid:
  assumes "jid \<in> K"
  shows "valid (pending j K w0)
           (run_series_episode_try e sid entry voice_alex voice_morgan n i ep_topic jid)
           (\<lambda>_. pending j (K - {jid}) w0) (\<lambda>_. pending j K w0)"
  unfolding run_series_episode_try_def Let_def
  by (intro worker_steps assms)

lemma run_series_episode_valid:
  assumes "jid \<in> K"
  shows "valid (pending j K w0)
           (try_except
              (run_series_episode_try e sid entry voice_alex voice_morgan n i ep_topic jid)
              (\<lambda>err. update_job e jid (kw_error err)))
           (\<lambda>_. pending j (K - {jid}) w0) E"
  by (rule valid_try [OF run_series_episode_try_valid [OF assms] leaf_error [OF assms]])

lemma job_id_at_valid:
  "valid P (job_id_at entry i)
     (\<lambda>jid w. P w \<and> i < length (s_job_ids entry) \<and> jid = s_job_ids entry ! i) (\<lambda>_. P)"
  by (simp add: valid_def job_id_at_def ret_def throw_def)

lemma run_series_loop_valid:
  assumes d: "distinct (s_job_ids entry)"
  shows "valid (pending j (set (drop i (s_job_ids entry))) w0)
           (run_series_loop e sid entry voice_alex voice_morgan n i episodes)
           (\<lambda>_. tracked j w0) (\<lambda>_. tracked j w0)"
proof (induction episodes arbitrary: i)
  case Nil
  show ?case by (simp add: valid_def ret_def pending_def)
next
  case (Cons ep_topic rest)
  let ?ids = "s_job_ids entry"
  let ?P = "pending j (set (drop i ?ids)) w0"
  have step: "valid (\<lambda>w. ?P w \<and> i < length ?ids \<and> jid = ?ids ! i)
                (seq (try_except
                        (run_series_episode_try e sid entry voice_alex voice_morgan n i ep_topic jid)
                        (\<lambda>err. update_job e jid (kw_error err)))
                     (run_series_loop e sid entry voice_alex voice_morgan n (Suc i) rest))
                (\<lambda>_. tracked j w0) (\<lambda>_. tracked j w0)" for jid
  proof (cases "i < length ?ids \<and> jid = ?ids ! i")
    case False
    then show ?thesis by (auto simp: valid_def)
  next
    case True
    then have mem: "jid \<in> set (drop i ?ids)"
      by (metis Cons_nth_drop_Suc list.set_intros(1))
    have sub: "set (drop (Suc i) ?ids) \<subseteq> set (drop i ?ids) - {jid}"
    proof -
      from True have split: "drop i ?ids = jid # drop (Suc i) ?ids"
        by (metis Cons_nth_drop_Suc)
      from d have "distinct (drop i ?ids)" by simp
      with split have "jid \<notin> set (drop (Suc i) ?ids)" by simp
      with split show ?thesis by auto
    qed
    have ep: "valid ?P
                (try_except
                   (run_series_episode_try e sid entry voice_alex voice_morgan n i ep_topic jid)
                   (\<lambda>err. update_job e jid (kw_error err)))
                (\<lambda>_. pending j (set (drop (Suc i) ?ids)) w0) (\<lambda>_. tracked j w0)"
      by (rule valid_weaken [OF run_series_episode_valid [OF mem, where E = "\<lambda>_ _. False"]])
         (auto intro: pending_subset [OF _ sub])
    have "valid ?P
            (seq (try_except
                    (run_series_episode_try e sid entry voice_alex voice_morgan n i ep_topic jid)
                    (\<lambda>err. update_job e jid (kw_error err)))
                 (run_series_loop e sid entry voice_alex voice_morgan n (Suc i) rest))
            (\<lambda>_. tracked j w0) (\<lambda>_. tracked j w0)"
      by (rule valid_seq [OF ep Cons.IH])
    then show ?thesis
      by (rule valid_weaken) simp_all
  qed
  have "valid ?P (job_id_at entry i)
          (\<lambda>jid w. ?P w \<and> i < length ?ids \<and> jid = ?ids ! i) (\<lambda>_. tracked j w0)"
    by (rule valid_weaken [OF job_id_at_valid [where P = ?P]]) (simp_all add: pending_def)
  then show ?case
    unfolding run_series_loop.simps by (rule valid_bind) (rule step)
qed

lemma run_series_valid:
  assumes "\<And>entry. find_series sid (load_series (series_file w0)) = Some entry
             \<Longrightarrow> distinct (s_job_ids entry) \<and> (\<forall>k \<in> set (s_job_ids entry). open_job k w0)"
  shows "tracked j w0 (snd (run_series e sid episodes voice_alex voice_morgan w0))"
proof (cases "find_series sid (load_series (series_file w0))")
  case None
  then show ?thesis
    by (simp add: run_series_def action_defs tracked_start)
next
  case (Some entry)
  with assms have d: "distinct (s_job_ids entry)" and o: "\<forall>k \<in> set (s_job_ids entry). open_job k w0"
    by simp_all
  have "pending j (set (drop 0 (s_job_ids entry))) w0 w0"
    using o by (simp add: pending_def tracked_start)
  with run_series_loop_valid [OF d]
  have "tracked j w0
          (snd (run_series_loop e sid entry voice_alex voice_morgan (length episodes) 0 episodes w0))"
    by (rule valid_snd)
  with Some show ?thesis
    by (simp add: run_series_def action_defs)
qed

lemma worker_tracked:
  assumes "valid (pending j {jid} w0) m (\<lambda>_. pending j ({jid} - {jid}) w0) (\<lambda>_ _. False)"
    and "open_job jid w0"
  shows "tracked j w0 (snd (m w0))"
proof -
  have "pending j {jid} w0 w0"
    using assms(2) by (simp add: pending_def tracked_start)
  have "valid (pending j {jid} w0) m (\<lambda>_. tracked j w0) (\<lambda>_. tracked j w0)"
    by (rule valid_weaken [OF assms(1)]) (simp_all add: pending_def)
  then show ?thesis using \<open>pending j {jid} w0 w0\<close> by (rule valid_snd)
qed

lemma tracked_trace:
  assumes "tracked j w0 w"
  shows "monotonic j (trace_since w0 w)"
    and "length (load_jobs (jobs_file w0)) \<le> 200 \<Longrightarrow> final_status j (trace_since w0 w)"
proof -
  let ?r0 = "load_jobs (jobs_file w0)"
  from assms obtain ds where ds: "jobs_writes w = jobs_writes w0 @ ds" "monotonic j (?r0 # ds)"
    "length ?r0 \<le> 200 \<longrightarrow> (\<forall>d \<in> set ds. map fst d = map fst ?r0)"
    unfolding tracked_def by blast
  then have tr: "trace_since w0 w = ?r0 # ds"
    by (simp add: trace_since_def)
  with ds(2) show m: "monotonic j (trace_since w0 w)" by simp
  show "final_status j (trace_since w0 w)" if "length ?r0 \<le> 200"
  proof (rule monotonic_final [OF m])
    show "\<forall>d \<in> set (trace_since w0 w). map fst d = map fst ?r0"
      using ds(3) that by (simp add: tr)
  qed
qed

lemma create_job_open:
  assumes "fst (create_job e jtype sid sep w) = Inr jid"
  shows "open_job jid (snd (create_job e jtype sid sep w))"
proof -
  let ?j = "uuid8 e (length (calls w))"
  let ?doc = "create_job_doc ?j jtype (utc_now e (Suc (length (calls w))))
                (utc_now e (Suc (Suc (length (calls w))))) sid sep (jobs_file w)"
  have run: "create_job e jtype sid sep w =
               (Inr ?j, write_jobs ?doc (w\<lparr>calls := calls w @ [Uuid, ClockUtc, ClockUtc]\<rparr>))"
    by (simp add: create_job_def action_defs write_jobs_def)
  with assms have jid: "jid = ?j" by simp
  let ?new = "AList.update ?j (new_job ?j jtype (utc_now e (Suc (length (calls w))))
                (utc_now e (Suc (Suc (length (calls w))))) sid sep) (load_jobs (jobs_file w))"
  have "status_in ?j ?new = Some Queued"
    by (simp add: status_in_update new_job_def)
  with status_in_save_jobs [of ?j ?new]
  have "status_in ?j ?doc = None \<or> status_in ?j ?doc = Some Queued"
    by (simp add: create_job_doc_def)
  then show ?thesis
    by (auto simp: run jid open_job_def write_jobs_def load_jobs_def)
qed

text \<open>
  C1.  Take any state \<open>w0\<close> in which the job \<open>jid\<close> of a worker has not reached
  \<^verbatim>\<open>done\<close> or \<^verbatim>\<open>error\<close> (as \<^verbatim>\<open>create_job\<close> leaves it), and in which the jobs of the
  series \<open>sid\<close> are different jobs that have not reached \<^verbatim>\<open>done\<close> or \<^verbatim>\<open>error\<close>.  Along
  the states of the registry that \<^verbatim>\<open>_run_generate\<close>, \<^verbatim>\<open>_run_chat\<close> and \<^verbatim>\<open>_run_series\<close>
  write, the status of every job \<open>j\<close> only moves forward, from \<^verbatim>\<open>queued\<close> to \<^verbatim>\<open>running\<close>
  to \<^verbatim>\<open>done\<close> or \<^verbatim>\<open>error\<close>; on a registry of at most 200 records no job leaves the
  registry, and a status \<^verbatim>\<open>done\<close> or \<^verbatim>\<open>error\<close> is the status in every later state.
\<close>

theorem worker_status_monotonic:
  assumes "open_job jid w0"
    and "\<And>entry. find_series sid (load_series (series_file w0)) = Some entry
           \<Longrightarrow> distinct (s_job_ids entry) \<and> (\<forall>k \<in> set (s_job_ids entry). open_job k w0)"
  shows "monotonic j (trace_since w0
           (snd (run_generate e jid topic_data depth voice_alex voice_morgan is_trailer brief w0)))
       \<and> monotonic j (trace_since w0
           (snd (run_chat e jid message existing voice_alex voice_morgan w0)))
       \<and> monotonic j (trace_since w0
           (snd (run_series e sid episodes voice_alex voice_morgan w0)))
       \<and> (length (load_jobs (jobs_file w0)) \<le> 200 \<longrightarrow>
            final_status j (trace_since w0
              (snd (run_generate e jid topic_data depth voice_alex voice_morgan is_trailer brief w0)))
          \<and> final_status j (trace_since w0
              (snd (run_chat e jid message existing voice_alex voice_morgan w0)))
          \<and> final_status j (trace_since w0
              (snd (run_series e sid episodes voice_alex voice_morgan w0))))
       \<and> (\<forall>w jtype sid' sep jid'. fst (create_job e jtype sid' sep w) = Inr jid'
             \<longrightarrow> open_job jid' (snd (create_job e jtype sid' sep w)))"
proof -
  have g: "tracked j w0
             (snd (run_generate e jid topic_data depth voice_alex voice_morgan is_trailer brief w0))"
    by (rule worker_tracked [OF run_generate_valid assms(1)]) simp
  have c: "tracked j w0 (snd (run_chat e jid message existing voice_alex voice_morgan w0))"
    by (rule worker_tracked [OF run_chat_valid assms(1)]) simp
  have s: "tracked j w0 (snd (run_series e sid episodes voice_alex voice_morgan w0))"
    using assms(2) by (rule run_series_valid)
  from tracked_trace [OF g] tracked_trace [OF c] tracked_trace [OF s] create_job_open
  show ?thesis by blast
qed

theorem worker_status_monotonic_witness:
  "open_job ''j1'' one_job_world
   \<and> find_series ''s1'' (load_series (series_file one_job_world)) \<noteq> None
   \<and> list_all (\<lambda>entry. distinct (s_job_ids entry)
                 \<and> list_all (\<lambda>k. open_job k one_job_world) (s_job_ids entry))
        (load_series (series_file one_job_world))
   \<and> map (status_in ''j1'') (trace_since one_job_world
        (snd (run_generate silent_env ''j1'' (plain_topic ''T'') ''standard'' ''Alex'' ''Morgan''
               False [] one_job_world)))
       = [Some Queued, Some Running, Some Error]
   \<and> monotonic ''j1'' (trace_since one_job_world
        (snd (run_generate silent_env ''j1'' (plain_topic ''T'') ''standard'' ''Alex'' ''Morgan''
               False [] one_job_world)))
   \<and> final_status ''j1'' (trace_since one_job_world
        (snd (run_generate silent_env ''j1'' (plain_topic ''T'') ''standard'' ''Alex'' ''Morgan''
               False [] one_job_world)))
   \<and> map (status_in ''j1'') (trace_since one_job_world
        (snd (run_series silent_env ''s1'' [plain_topic ''T''] ''Alex'' ''Morgan'' one_job_world)))
       = [Some Queued, Some Running, Some Running, Some Error]
   \<and> monotonic ''j1'' (trace_since one_job_world
        (snd (run_series silent_env ''s1'' [plain_topic ''T''] ''Alex'' ''Morgan'' one_job_world)))
   \<and> final_status ''j1'' (trace_since one_job_world
        (snd (run_series silent_env ''s1'' [plain_topic ''T''] ''Alex'' ''Morgan'' one_job_world)))"
proof -
  have o: "open_job ''j1'' one_job_world"
    by code_simp
  have f: "find_series ''s1'' (load_series (series_file one_job_world)) \<noteq> None"
    by code_simp
  have l: "list_all (\<lambda>entry. distinct (s_job_ids entry)
                 \<and> list_all (\<lambda>k. open_job k one_job_world) (s_job_ids entry))
        (load_series (series_file one_job_world))"
    by code_simp
  have n: "length (load_jobs (jobs_file one_job_world)) \<le> 200"
    by code_simp
  have h: "distinct (s_job_ids entry) \<and> (\<forall>k \<in> set (s_job_ids entry). open_job k one_job_world)"
    if "find_series ''s1'' (load_series (series_file one_job_world)) = Some entry" for entry
  proof -
    from that have "entry \<in> set (load_series (series_file one_job_world))"
      by (auto simp: find_series_def dest: find_Some_in)
    with l show ?thesis by (auto simp: list_all_iff)
  qed
  note th = worker_status_monotonic [OF o h, where j = "''j1''" and e = silent_env
      and topic_data = "plain_topic ''T''" and depth = "''standard''" and voice_alex = "''Alex''"
      and voice_morgan = "''Morgan''" and is_trailer = False and brief = "[]"
      and message = "[]" and existing = "[]" and episodes = "[plain_topic ''T'']"]
  have t1: "map (status_in ''j1'') (trace_since one_job_world
        (snd (run_generate silent_env ''j1'' (plain_topic ''T'') ''standard'' ''Alex'' ''Morgan''
               False [] one_job_world)))
       = [Some Queued, Some Running, Some Error]"
    by code_simp
  have t2: "map (status_in ''j1'') (trace_since one_job_world
        (snd (run_series silent_env ''s1'' [plain_topic ''T''] ''Alex'' ''Morgan'' one_job_world)))
       = [Some Queued, Some Running, Some Running, Some Error]"
    by code_simp
  from th n o f l t1 t2 show ?thesis by blast
qed

section \<open>A series with one failing episode\<close>

subsection \<open>Actions that leave the registry and the series alone\<close>

lemma unchanged_refl: "unchanged w w"
  by (simp add: unchanged_def)

lemma unchanged_trans: "unchanged w w' \<Longrightarrow> unchanged w' w'' \<Longrightarrow> unchanged w w''"
  by (simp add: unchanged_def)

lemma unchanged_call:
  "c \<noteq> EpisodeAudio \<Longrightarrow> c \<noteq> CopyFile \<Longrightarrow> unchanged w (w\<lparr>calls := calls w @ [c]\<rparr>)"
  by (simp add: unchanged_def studio_calls_def)

lemma calm_ret: "calm (ret x)"
  by (simp add: calm_def ret_def unchanged_refl)

lemma calm_throw: "calm (throw err)"
  by (simp add: calm_def throw_def unchanged_refl)

lemma calm_gets: "calm (gets g)"
  by (simp add: calm_def gets_def unchanged_refl)

lemma calm_ask: "c \<noteq> EpisodeAudio \<Longrightarrow> c \<noteq> CopyFile \<Longrightarrow> calm (ask c g)"
  by (simp add: calm_def ask_def unchanged_call)

lemma calm_attempt: "c \<noteq> EpisodeAudio \<Longrightarrow> c \<noteq> CopyFile \<Longrightarrow> calm (attempt c g)"
  by (simp add: calm_def attempt_def unchanged_call)

lemma calm_modify: "(\<And>w. unchanged w (g w)) \<Longrightarrow> calm (modify g)"
  by (simp add: calm_def modify_def)

lemma calm_bind:
  assumes "calm m" and "\<And>x. calm (f x)"
  shows "calm (bind m f)"
  unfolding calm_def
proof
  fix w
  obtain a w' where mw: "m w = (a, w')" by (cases "m w")
  from assms(1) mw have w': "unchanged w w'"
    unfolding calm_def by (metis snd_conv)
  show "unchanged w (snd (bind m f w))"
  proof (cases a)
    case (Inl err)
    with mw w' show ?thesis by (simp add: bind_def)
  next
    case (Inr x)
    from assms(2) [of x] have "unchanged w' (snd (f x w'))"
      unfolding calm_def by simp
    with w' have "unchanged w (snd (f x w'))" by (rule unchanged_trans)
    with Inr mw show ?thesis by (simp add: bind_def)
  qed
qed

lemma calm_try:
  assumes "calm m" and "\<And>err. calm (h err)"
  shows "calm (try_except m h)"
  unfolding calm_def
proof
  fix w
  obtain a w' where mw: "m w = (a, w')" by (cases "m w")
  from assms(1) mw have w': "unchanged w w'"
    unfolding calm_def by (metis snd_conv)
  show "unchanged w (snd (try_except m h w))"
  proof (cases a)
    case (Inr x)
    with mw w' show ?thesis by (simp add: try_except_def)
  next
    case (Inl err)
    from assms(2) [of err] have "unchanged w' (snd (h err w'))"
      unfolding calm_def by simp
    with w' have "unchanged w (snd (h err w'))" by (rule unchanged_trans)
    with Inl mw show ?thesis by (simp add: try_except_def)
  qed
qed

lemma calm_require_key: "calm (require_key k v)"
  by (cases v) (simp_all add: require_key_def calm_ret calm_throw)

lemma calm_parsed: "calm (parsed p)"
  by (cases p) (simp_all add: parsed_def calm_ret calm_throw)

lemma calm_call_anthropic: "calm (call_anthropic e web)"
  by (simp add: call_anthropic_def calm_attempt)

lemma calm_generate_grounded_script: "calm (generate_grounded_script e topic depth brief)"
  unfolding generate_grounded_script_def
  by (intro calm_bind calm_try calm_require_key calm_call_anthropic calm_parsed calm_ret)

lemma calm_log_production: "calm (log_production e)"
  unfolding log_production_def
  by (intro calm_bind calm_gets calm_ask calm_modify) (simp_all add: unchanged_def studio_calls_def)

lemma shelf_frame:
  "shelf (write_jobs d w) = shelf w"
  "shelf (w\<lparr>calls := X\<rparr>) = shelf w"
  "shelf (w\<lparr>series_file := Y\<rparr>) = shelf w"
  by (simp_all add: shelf_def write_jobs_def)

lemma studio_calls_frame:
  "studio_calls (write_jobs d w) = studio_calls w"
  "studio_calls (w\<lparr>series_file := Y\<rparr>) = studio_calls w"
  "studio_calls (w\<lparr>calls := calls w @ [ClockUtc]\<rparr>) = studio_calls w"
  by (simp_all add: studio_calls_def write_jobs_def)

lemma observe_unchanged:
  assumes "observe V S C A w" and "unchanged w w'"
  shows "observe V S C A w'"
  using assms by (simp add: observe_def unchanged_def jobs_view_def shelf_def fun_eq_iff)

lemma observe_calm:
  assumes "calm m"
  shows "valid (observe V S C A) m (\<lambda>_. observe V S C A) (\<lambda>_. observe V S C A)"
  unfolding valid_def
proof (intro allI impI)
  fix w assume p: "observe V S C A w"
  from assms have "unchanged w (snd (m w))"
    by (simp add: calm_def)
  with p have "observe V S C A (snd (m w))" by (rule observe_unchanged)
  then show "case m w of (Inl err, w') \<Rightarrow> observe V S C A w' | (Inr x, w') \<Rightarrow> observe V S C A w'"
    by (intro outcomeI)
qed

text \<open>A calm action of which the outcome is known.\<close>

lemma observe_returns:
  assumes "calm m" and "\<And>w. \<exists>x. fst (m w) = Inr x \<and> R x"
  shows "valid (observe V S C A) m (\<lambda>x w. observe V S C A w \<and> R x) E"
  unfolding valid_def
proof (intro allI impI)
  fix w assume p: "observe V S C A w"
  from assms(1) have "unchanged w (snd (m w))"
    by (simp add: calm_def)
  with p have o: "observe V S C A (snd (m w))" by (rule observe_unchanged)
  from assms(2) obtain x where x: "fst (m w) = Inr x" "R x" by blast
  show "case m w of (Inl err, w') \<Rightarrow> E err w' | (Inr x, w') \<Rightarrow> observe V S C A w' \<and> R x"
    using o x by (intro outcomeI) auto
qed

lemma observe_raises:
  assumes "calm m" and "\<And>w. fst (m w) = Inl msg"
  shows "valid (observe V S C A) m Q (\<lambda>err w. observe V S C A w \<and> err = msg)"
  unfolding valid_def
proof (intro allI impI)
  fix w assume p: "observe V S C A w"
  from assms(1) have "unchanged w (snd (m w))"
    by (simp add: calm_def)
  with p have o: "observe V S C A (snd (m w))" by (rule observe_unchanged)
  show "case m w of (Inl err, w') \<Rightarrow> observe V S C A w' \<and> err = msg | (Inr x, w') \<Rightarrow> Q x w'"
    using o assms(2) [of w] by (intro outcomeI) auto
qed

lemma bind_returns:
  assumes "calm m" and "\<And>w. \<exists>x. fst (m w) = Inr x \<and> R x"
    and "\<And>x. R x \<Longrightarrow> valid (observe V S C A) (f x) Q E"
  shows "valid (observe V S C A) (bind m f) Q E"
proof (rule valid_bind [OF observe_returns [OF assms(1,2)]])
  fix x
  show "valid (\<lambda>w. observe V S C A w \<and> R x) (f x) Q E"
  proof (cases "R x")
    case True
    from assms(3) [OF True] show ?thesis
      by (rule valid_weaken) simp_all
  next
    case False
    then show ?thesis by (simp add: valid_def)
  qed
qed

lemma seq_returns:
  assumes "calm m" and "\<And>w. \<exists>x. fst (m w) = Inr x"
    and "valid (observe V S C A) n Q E"
  shows "valid (observe V S C A) (seq m n) Q E"
  unfolding seq_def
  by (rule bind_returns [where R = "\<lambda>_. True", OF assms(1)]) (simp_all add: assms)

subsection \<open>What \<^verbatim>\<open>update_job\<close> and the series counter show\<close>

lemma update_job_doc_view:
  assumes "length (load_jobs f) \<le> 200" and "map_of (load_jobs f) k = Some b"
  shows "update_job_doc now k kw f = Some (AList.update k (merge_fields now kw b) (load_jobs f))"
proof -
  have "map fst (AList.update k (merge_fields now kw b) (load_jobs f)) = map fst (load_jobs f)"
    using assms(2) by (rule keys_update_present)
  then have "length (AList.update k (merge_fields now kw b) (load_jobs f)) = length (load_jobs f)"
    by (metis length_map)
  with assms(1) have "save_jobs (AList.update k (merge_fields now kw b) (load_jobs f))
                        = AList.update k (merge_fields now kw b) (load_jobs f)"
    by (simp add: save_jobs_small)
  with assms(2) show ?thesis by (simp add: update_job_doc_def Let_def)
qed

lemma observe_update_job:
  "valid (observe V S C A) (update_job e k kw)
     (\<lambda>_. observe (V(k := map_option (apply_kw kw) (V k))) S C A) E"
  unfolding valid_def
proof (intro allI impI)
  fix w assume p: "observe V S C A w"
  let ?w' = "snd (update_job e k kw w)"
  let ?now = "utc_now e (length (calls w))"
  from p have room: "length (load_jobs (jobs_file w)) \<le> 200" and v: "jobs_view w = V"
    and s: "load_series (series_file w) = S" and c: "shelf w = C" and a: "studio_calls w = A"
    by (simp_all add: observe_def)
  have "observe (V(k := map_option (apply_kw kw) (V k))) S C A ?w'"
  proof (cases "map_of (load_jobs (jobs_file w)) k")
    case None
    then have "update_job_doc ?now k kw (jobs_file w) = None"
      by (simp add: update_job_doc_def Let_def)
    moreover from None v have "V k = None"
      by (auto simp: jobs_view_def get_job_def)
    then have "V(k := map_option (apply_kw kw) (V k)) = V" by auto
    ultimately show ?thesis
      using observe_unchanged [OF p unchanged_call [of ClockUtc w]]
      by (simp add: update_job_run)
  next
    case (Some b)
    let ?doc = "AList.update k (merge_fields ?now kw b) (load_jobs (jobs_file w))"
    have doc: "update_job_doc ?now k kw (jobs_file w) = Some ?doc"
      using room Some by (rule update_job_doc_view)
    have len: "length ?doc = length (load_jobs (jobs_file w))"
      using keys_update_present [OF Some] by (metis length_map)
    have vk: "V k = Some (status b, error b)"
      using Some v by (auto simp: jobs_view_def get_job_def)
    have "map_option (\<lambda>b. (status b, error b)) (map_of ?doc j)
            = (V(k := map_option (apply_kw kw) (V k))) j" for j
    proof (cases "j = k")
      case True
      then show ?thesis
        by (simp add: update_conv' vk apply_kw_def merge_fields_def split: option.splits)
    next
      case False
      with v show ?thesis
        by (auto simp: update_conv' jobs_view_def get_job_def)
    qed
    then have "jobs_view (write_jobs ?doc (w\<lparr>calls := calls w @ [ClockUtc]\<rparr>))
                 = V(k := map_option (apply_kw kw) (V k))"
      by (simp add: jobs_view_def get_job_def write_jobs_def load_jobs_def fun_eq_iff)
    moreover have "length (load_jobs (jobs_file (write_jobs ?doc (w\<lparr>calls := calls w @ [ClockUtc]\<rparr>))))
                     \<le> 200"
      using room len by (simp add: write_jobs_def load_jobs_def)
    moreover have "load_series (series_file (write_jobs ?doc (w\<lparr>calls := calls w @ [ClockUtc]\<rparr>))) = S"
      using s by (simp add: write_jobs_def)
    ultimately show ?thesis
      using c a by (simp add: update_job_run doc observe_def shelf_frame studio_calls_frame)
  qed
  then show "case update_job e k kw w of (Inl err, w') \<Rightarrow> E err w'
             | (Inr x, w') \<Rightarrow> observe (V(k := map_option (apply_kw kw) (V k))) S C A w'"
    using update_job_returns [of e k kw w] by (intro outcomeI) simp_all
qed

lemma change_first_missing: "find_series sid S = None \<Longrightarrow> change_first sid g S = S"
  by (induction S) (auto simp: find_series_def split: if_splits)

lemma observe_change_series:
  "valid (observe V S C A) (change_series sid g) (\<lambda>_. observe V (change_first sid g S) C A) E"
  unfolding valid_def
proof (intro allI impI)
  fix w assume p: "observe V S C A w"
  then have s: "load_series (series_file w) = S" by (simp add: observe_def)
  have r: "fst (change_series sid g w) = Inr ()"
    by (simp add: change_series_def action_defs split: option.splits)
  have "observe V (change_first sid g S) C A (snd (change_series sid g w))"
  proof (cases "find_series sid S")
    case None
    with p s show ?thesis
      by (simp add: change_series_def action_defs change_first_missing)
  next
    case (Some a)
    have "jobs_view (w\<lparr>series_file := Parsed (change_first sid g S)\<rparr>) = jobs_view w"
      by (simp add: jobs_view_def fun_eq_iff)
    with Some p s show ?thesis
      by (simp add: change_series_def action_defs observe_def load_series_def shelf_frame
            studio_calls_frame)
  qed
  with r show "case change_series sid g w of (Inl err, w') \<Rightarrow> E err w'
               | (Inr x, w') \<Rightarrow> observe V (change_first sid g S) C A w'"
    by (intro outcomeI) simp_all
qed

subsection \<open>One episode of a series\<close>

lemma valid_post:
  assumes "valid P m Q' E" and "\<And>x w. Q' x w \<Longrightarrow> Q x w"
  shows "valid P m Q E"
  by (rule valid_weaken [OF assms(1)]) (simp_all add: assms(2))

lemma valid_never: "valid (\<lambda>w. False) m Q E"
  by (simp add: valid_def)

lemma bind_ret: "bind (ret x) f = f x"
  by (simp add: bind_def ret_def)

lemma seq_update:
  assumes "valid (observe (V(k := map_option (apply_kw kw) (V k))) S C A) n Q E"
  shows "valid (observe V S C A) (seq (update_job e k kw) n) Q E"
  by (rule valid_seq [OF observe_update_job assms])

lemma returns_client: "studio_ok e va vm \<Longrightarrow> \<exists>x. fst (get_elevenlabs_client e w) = Inr x \<and> True"
  by (simp add: studio_ok_def get_elevenlabs_client_def attempt_def)

lemma returns_voice:
  assumes "studio_ok e va vm" and "q = va \<or> q = vm"
  shows "\<exists>x. fst (resolve_voice e client q w) = Inr x \<and> \<not> falsy x"
proof -
  from assms(1) obtain voices where "voices_get_all e (length (calls w)) = Inr voices"
    "\<not> falsy (resolve_voice_in voices va)" "\<not> falsy (resolve_voice_in voices vm)"
    unfolding studio_ok_def by blast
  with assms(2) show ?thesis
    by (auto simp: resolve_voice_def action_defs)
qed

lemma returns_st_size: "studio_ok e va vm \<Longrightarrow> \<exists>x. fst (st_size e w) = Inr x \<and> True"
  by (simp add: studio_ok_def st_size_def attempt_def)

lemma returns_ask: "\<exists>x. fst (ask c g w) = Inr x \<and> True"
  by (simp add: ask_def)

lemma returns_log_production: "\<exists>x. fst (log_production e w) = Inr x \<and> True"
  by (simp add: log_production_def action_defs)

lemma returns_require_key: "v = Some y \<Longrightarrow> \<exists>x. fst (require_key k v w) = Inr x \<and> x = y"
  by (simp add: require_key_def ret_def)

lemma calm_get_elevenlabs_client: "calm (get_elevenlabs_client e)"
  by (simp add: get_elevenlabs_client_def calm_attempt)

lemma calm_resolve_voice: "calm (resolve_voice e client q)"
  unfolding resolve_voice_def by (intro calm_bind calm_attempt calm_ret) simp_all

text \<open>The three steps that publish: the audio, its copy, and the entry of the episode.\<close>

lemma observe_studio_call:
  assumes "\<And>n. g n = Inr ()" and "c = EpisodeAudio \<or> c = CopyFile"
  shows "valid (observe V S C A) (attempt c g) (\<lambda>_. observe V S C (A @ [c])) E"
  unfolding valid_def
proof (intro allI impI)
  fix w assume p: "observe V S C A w"
  have "jobs_view (w\<lparr>calls := calls w @ [c]\<rparr>) = jobs_view w"
    by (simp add: jobs_view_def fun_eq_iff)
  with p assms(2) have "observe V S C (A @ [c]) (w\<lparr>calls := calls w @ [c]\<rparr>)"
    by (auto simp: observe_def shelf_def studio_calls_def)
  then show "case attempt c g w of (Inl err, w') \<Rightarrow> E err w'
             | (Inr x, w') \<Rightarrow> observe V S C (A @ [c]) w'"
    by (simp add: attempt_def assms(1))
qed

lemma seq_audio:
  assumes "studio_ok e va vm" and "valid (observe V S C (A @ [EpisodeAudio])) n Q E"
  shows "valid (observe V S C A) (seq (generate_episode_audio e client script dir a b) n) Q E"
  unfolding generate_episode_audio_def
  by (rule valid_seq [OF observe_studio_call assms(2)])
     (use assms(1) in \<open>simp_all add: studio_ok_def\<close>)

lemma seq_copy2:
  assumes "studio_ok e va vm" and "valid (observe V S C (A @ [CopyFile])) n Q E"
  shows "valid (observe V S C A) (seq (copy2 e) n) Q E"
  unfolding copy2_def
  by (rule valid_seq [OF observe_studio_call assms(2)])
     (use assms(1) in \<open>simp_all add: studio_ok_def\<close>)

lemma seq_save_episode:
  assumes "valid (observe V S (C @ [episode_card entry]) A) n Q E"
  shows "valid (observe V S C A) (seq (save_episode entry) n) Q E"
proof (rule valid_seq [OF _ assms])
  show "valid (observe V S C A) (save_episode entry)
          (\<lambda>_. observe V S (C @ [episode_card entry]) A) E"
    unfolding valid_def
  proof (intro allI impI)
    fix w assume p: "observe V S C A w"
    let ?w' = "w\<lparr>episodes_file := Parsed (load_episodes (episodes_file w) @ [entry])\<rparr>"
    have "jobs_view ?w' = jobs_view w"
      by (simp add: jobs_view_def fun_eq_iff)
    with p have "observe V S (C @ [episode_card entry]) A ?w'"
      by (auto simp: observe_def shelf_def studio_calls_def load_episodes_def)
    then show "case save_episode entry w of (Inl err, w') \<Rightarrow> E err w'
               | (Inr x, w') \<Rightarrow> observe V S (C @ [episode_card entry]) A w'"
      by (simp add: save_episode_def modify_def)
  qed
qed

lemma calm_st_size: "calm (st_size e)"
  by (simp add: st_size_def calm_attempt)

lemma script_needs_keys:
  assumes "fst (generate_grounded_script e t depth brief w) = Inr x"
  shows "title t \<noteq> None \<and> tension t \<noteq> None"
  using assms
  by (cases "title t"; cases "tension t")
     (simp_all add: generate_grounded_script_def require_key_def bind_def throw_def ret_def)

lemma script_raises_without_keys:
  assumes "title t = None \<or> tension t = None"
  shows "fst (generate_grounded_script e t depth brief w) =
           Inl (if title t = None then key_error ''title'' else key_error ''tension'')"
  using assms
  by (cases "title t"; cases "tension t")
     (simp_all add: generate_grounded_script_def require_key_def bind_def throw_def ret_def)

lemma try_except_returns:
  assumes "\<And>err w. \<exists>x. fst (h err w) = Inr x"
  shows "\<exists>x. fst (try_except m h w) = Inr x"
proof -
  obtain a w' where mw: "m w = (a, w')" by (cases "m w")
  show ?thesis
  proof (cases a)
    case (Inl err)
    with mw assms [of err w'] show ?thesis by (simp add: try_except_def)
  next
    case (Inr x)
    with mw show ?thesis by (simp add: try_except_def)
  qed
qed

lemma script_returns_with_keys:
  assumes "title t \<noteq> None" and "tension t \<noteq> None"
  shows "\<exists>x. fst (generate_grounded_script e t depth brief w) = Inr x"
proof -
  from assms obtain ttl tns where k: "title t = Some ttl" "tension t = Some tns" by auto
  have "generate_grounded_script e t depth brief =
          try_except
            (bind (try_except (call_anthropic e True) (\<lambda>ws_err. call_anthropic e False))
               (\<lambda>data. parsed (as_script data)))
            (\<lambda>err. ret (fallback_script t ttl tns, []))"
    by (simp add: generate_grounded_script_def k require_key_def bind_ret)
  then show ?thesis
    by (simp only:) (rule try_except_returns, simp add: ret_def)
qed

lemma change_series_post:
  assumes "\<And>w. observe V (change_first sid g S) C A w \<Longrightarrow> Q' w"
  shows "valid (observe V S C A) (change_series sid g) (\<lambda>_. Q') E"
  by (rule valid_post [OF observe_change_series]) (rule assms)

lemma if_voices:
  assumes "\<not> falsy a" and "\<not> falsy b" and "valid P y Q E"
  shows "valid P (if falsy a \<or> falsy b then x else y) Q E"
  using assms by simp

text \<open>
  An episode whose script is written: the audio is rendered and copied, the episode is
  published, its job ends \<^verbatim>\<open>done\<close> and the counter moves.
\<close>

lemma episode_done:
  assumes studio: "studio_ok e voice_alex voice_morgan"
    and script: "\<And>brief w. \<exists>x. fst (generate_grounded_script e t ''standard'' brief w) = Inr x"
    and k: "V k = Some (s0, er0)"
  shows "valid (observe V S C A)
           (try_except
              (run_series_episode_try e sid entry voice_alex voice_morgan n i t k)
              (\<lambda>err. update_job e k (kw_error err)))
           (\<lambda>_. observe (V(k \<mapsto> (Done, er0)))
                   (change_first sid (\<lambda>s. s\<lparr>s_completed := s_completed s + 1\<rparr>) S)
                   (C @ [series_card sid (s_title entry) (Suc i) t])
                   (A @ [EpisodeAudio, CopyFile]))
           (\<lambda>_ _. False)"
proof -
  from script [of "[]" undefined] obtain x where
    "fst (generate_grounded_script e t ''standard'' [] undefined) = Inr x" by blast
  then have "title t \<noteq> None" by (simp add: script_needs_keys)
  then obtain ttl where ttl: "title t = Some ttl" by blast
  have sc: "\<exists>x. fst (generate_grounded_script e t ''standard'' brief w) = Inr x \<and> True" for brief w
    using script [of brief w] by simp
  note steps =
    seq_update
    bind_returns [OF calm_generate_grounded_script sc]
    seq_returns [OF calm_log_production] seq_audio [OF studio]
    seq_copy2 [OF studio] seq_save_episode
    bind_returns [OF calm_get_elevenlabs_client returns_client [OF studio]]
    bind_returns [OF calm_resolve_voice returns_voice [OF studio]]
    bind_returns [OF calm_ask returns_ask]
    bind_returns [OF calm_require_key returns_require_key [OF ttl]]
    bind_returns [OF calm_st_size returns_st_size [OF studio]]
    valid_case_prod if_voices change_series_post
  have body: "valid (observe V S C A)
           (run_series_episode_try e sid entry voice_alex voice_morgan n i t k)
           (\<lambda>_. observe (V(k \<mapsto> (Done, er0)))
                   (change_first sid (\<lambda>s. s\<lparr>s_completed := s_completed s + 1\<rparr>) S)
                   (C @ [series_card sid (s_title entry) (Suc i) t])
                   (A @ [EpisodeAudio, CopyFile]))
           (\<lambda>_ _. False)"
    unfolding run_series_episode_try_def Let_def
    by (intro steps)
       (simp_all add: returns_log_production [simplified]
          k apply_kw_def kw_status_def kw_progress_def kw_done_def no_fields_def get_or_def
          episode_card_def series_card_def ttl)
  show ?thesis
    by (rule valid_try [OF body]) (rule valid_never)
qed

subsection \<open>An episode whose script synthesis raises\<close>

lemma bind_raises:
  assumes "calm m" and "\<And>w. fst (m w) = Inl msg"
  shows "valid (observe V S C A) (bind m f) Q (\<lambda>err w. observe V S C A w \<and> err = msg)"
  by (rule valid_bind [where R = "\<lambda>_ _. False", OF observe_raises [OF assms]]) (rule valid_never)

lemma episode_error:
  assumes raises: "\<And>brief w. fst (generate_grounded_script e t ''standard'' brief w) = Inl msg"
    and k: "V k = Some (s0, er0)"
  shows "valid (observe V S C A)
           (try_except
              (run_series_episode_try e sid entry voice_alex voice_morgan n i t k)
              (\<lambda>err. update_job e k (kw_error err)))
           (\<lambda>_. observe (V(k \<mapsto> (Error, Some msg))) S C A)
           (\<lambda>_ _. False)"
proof -
  let ?V1 = "V(k \<mapsto> (Running, er0))"
  have r: "valid (observe V' S C A) (bind (generate_grounded_script e t ''standard'' brief) f) Q
             (\<lambda>err w. observe V' S C A w \<and> err = msg)" for V' brief f Q
    by (rule bind_raises [OF calm_generate_grounded_script raises])
  have V1: "V(k := map_option (apply_kw (kw_status Running p)) (V k)) = ?V1" for p
    by (simp add: k apply_kw_def kw_status_def no_fields_def get_or_def)
  have body: "valid (observe V S C A)
           (run_series_episode_try e sid entry voice_alex voice_morgan n i t k)
           (\<lambda>_. observe (V(k \<mapsto> (Error, Some msg))) S C A)
           (\<lambda>err w. observe ?V1 S C A w \<and> err = msg)"
    unfolding run_series_episode_try_def Let_def
    by (rule seq_update) (simp only: V1, rule r)
  have handler: "valid (\<lambda>w. observe ?V1 S C A w \<and> err = msg) (update_job e k (kw_error err))
                   (\<lambda>_. observe (V(k \<mapsto> (Error, Some msg))) S C A) (\<lambda>_ _. False)" for err
  proof (cases "err = msg")
    case True
    have "?V1(k := map_option (apply_kw (kw_error msg)) (?V1 k)) = V(k \<mapsto> (Error, Some msg))"
      by (simp add: apply_kw_def kw_error_def no_fields_def get_or_def)
    with observe_update_job [where V = "?V1" and S = S and C = C and A = A and e = e and k = k
        and kw = "kw_error msg" and E = "\<lambda>_ _. False"]
    have "valid (observe ?V1 S C A) (update_job e k (kw_error msg))
            (\<lambda>_. observe (V(k \<mapsto> (Error, Some msg))) S C A) (\<lambda>_ _. False)"
      by simp
    then show ?thesis
      using True by (simp add: valid_def)
  next
    case False
    then show ?thesis by (simp add: valid_def)
  qed
  show ?thesis
    by (rule valid_try [OF body handler])
qed

subsection \<open>The loop over three episodes\<close>

lemma bind_load_series:
  assumes "\<And>w. P w \<Longrightarrow> load_series (series_file w) = S" and "valid P (f S) Q E"
  shows "valid P (bind (gets (\<lambda>w. load_series (series_file w))) f) Q E"
proof (rule valid_bind [where R = "\<lambda>x w. P w \<and> x = S"])
  show "valid P (gets (\<lambda>w. load_series (series_file w))) (\<lambda>x w. P w \<and> x = S) E"
    by (simp add: valid_def gets_def assms(1))
next
  fix x
  show "valid (\<lambda>w. P w \<and> x = S) (f x) Q E"
  proof (cases "x = S")
    case True
    with assms(2) show ?thesis by (simp add: valid_def)
  next
    case False
    then show ?thesis by (simp add: valid_def)
  qed
qed

lemma three_episodes:
  assumes studio: "studio_ok e voice_alex voice_morgan"
    and s1: "\<And>brief w. \<exists>x. fst (generate_grounded_script e e1 ''standard'' brief w) = Inr x"
    and s2: "\<And>brief w. fst (generate_grounded_script e e2 ''standard'' brief w) = Inl msg"
    and s3: "\<And>brief w. \<exists>x. fst (generate_grounded_script e e3 ''standard'' brief w) = Inr x"
    and ids: "s_job_ids entry = [j1, j2, j3]"
    and d: "distinct [j1, j2, j3]"
    and v: "V j1 = Some (st1, er1)" "V j2 = Some (st2, er2)" "V j3 = Some (st3, er3)"
  shows "valid (observe V S C A)
           (run_series_loop e sid entry voice_alex voice_morgan n 0 [e1, e2, e3])
           (\<lambda>_. observe (V(j1 \<mapsto> (Done, er1), j2 \<mapsto> (Error, Some msg), j3 \<mapsto> (Done, er3)))
                   (change_first sid (\<lambda>s. s\<lparr>s_completed := s_completed s + 1\<rparr>)
                     (change_first sid (\<lambda>s. s\<lparr>s_completed := s_completed s + 1\<rparr>) S))
                   (C @ [series_card sid (s_title entry) 1 e1, series_card sid (s_title entry) 3 e3])
                   (A @ [EpisodeAudio, CopyFile, EpisodeAudio, CopyFile]))
           (\<lambda>_ _. False)"
proof -
  let ?inc = "\<lambda>s. s\<lparr>s_completed := s_completed s + 1\<rparr>"
  let ?V1 = "V(j1 \<mapsto> (Done, er1))"
  let ?V2 = "?V1(j2 \<mapsto> (Error, Some msg))"
  let ?V3 = "?V2(j3 \<mapsto> (Done, er3))"
  let ?S1 = "change_first sid ?inc S"
  let ?S2 = "change_first sid ?inc ?S1"
  let ?ep = "\<lambda>i t k. try_except
               (run_series_episode_try e sid entry voice_alex voice_morgan n i t k)
               (\<lambda>err. update_job e k (kw_error err))"
  have loop: "run_series_loop e sid entry voice_alex voice_morgan n 0 [e1, e2, e3] =
                seq (?ep 0 e1 j1) (seq (?ep (Suc 0) e2 j2) (seq (?ep (Suc (Suc 0)) e3 j3) (ret ())))"
    by (simp add: job_id_at_def ids bind_ret)
  let ?C1 = "C @ [series_card sid (s_title entry) (Suc 0) e1]"
  let ?C2 = "?C1 @ [series_card sid (s_title entry) (Suc (Suc (Suc 0))) e3]"
  let ?A1 = "A @ [EpisodeAudio, CopyFile]"
  let ?A2 = "?A1 @ [EpisodeAudio, CopyFile]"
  have a: "valid (observe V S C A) (?ep 0 e1 j1) (\<lambda>_. observe ?V1 ?S1 ?C1 ?A1) (\<lambda>_ _. False)"
    by (rule episode_done [where V = V and k = j1, OF studio s1 v(1)])
  from d v(2) have v2: "?V1 j2 = Some (st2, er2)" by auto
  have b: "valid (observe ?V1 ?S1 ?C1 ?A1) (?ep (Suc 0) e2 j2) (\<lambda>_. observe ?V2 ?S1 ?C1 ?A1)
             (\<lambda>_ _. False)"
    by (rule episode_error [where V = "?V1" and k = j2, OF s2 v2])
  from d v(3) have v3: "?V2 j3 = Some (st3, er3)" by auto
  have c: "valid (observe ?V2 ?S1 ?C1 ?A1) (?ep (Suc (Suc 0)) e3 j3)
             (\<lambda>_. observe ?V3 ?S2 ?C2 ?A2) (\<lambda>_ _. False)"
    by (rule episode_done [where V = "?V2" and k = j3, OF studio s3 v3])
  have r: "valid (observe ?V3 ?S2 ?C2 ?A2) (ret ()) (\<lambda>_. observe ?V3 ?S2 ?C2 ?A2) (\<lambda>_ _. False)"
    by (simp add: valid_def ret_def)
  show ?thesis
    unfolding loop
    by (rule valid_post [OF valid_seq [OF a valid_seq [OF b valid_seq [OF c r]]]])
       (simp add: numeral_3_eq_3)
qed

lemma run_series_three:
  assumes studio: "studio_ok e voice_alex voice_morgan"
    and s1: "\<And>brief w. \<exists>x. fst (generate_grounded_script e e1 ''standard'' brief w) = Inr x"
    and s2: "\<And>brief w. fst (generate_grounded_script e e2 ''standard'' brief w) = Inl msg"
    and s3: "\<And>brief w. \<exists>x. fst (generate_grounded_script e e3 ''standard'' brief w) = Inr x"
    and entry: "find_series sid S = Some entry"
    and ids: "s_job_ids entry = [j1, j2, j3]"
    and d: "distinct [j1, j2, j3]"
    and v: "V j1 = Some (st1, er1)" "V j2 = Some (st2, er2)" "V j3 = Some (st3, er3)"
  shows "valid (observe V S C A)
           (run_series e sid [e1, e2, e3] voice_alex voice_morgan)
           (\<lambda>_. observe (V(j1 \<mapsto> (Done, er1), j2 \<mapsto> (Error, Some msg), j3 \<mapsto> (Done, er3)))
                   (change_first sid (\<lambda>s. s\<lparr>s_completed := s_completed s + 1\<rparr>)
                     (change_first sid (\<lambda>s. s\<lparr>s_completed := s_completed s + 1\<rparr>) S))
                   (C @ [series_card sid (s_title entry) 1 e1, series_card sid (s_title entry) 3 e3])
                   (A @ [EpisodeAudio, CopyFile, EpisodeAudio, CopyFile]))
           (\<lambda>_ _. False)"
  unfolding run_series_def
proof (rule bind_load_series [where S = S])
  show "observe V S C A w \<Longrightarrow> load_series (series_file w) = S" for w
    by (simp add: observe_def)
  show "valid (observe V S C A)
     (case find_series sid S of None \<Rightarrow> ret ()
      | Some series_entry \<Rightarrow>
          run_series_loop e sid series_entry voice_alex voice_morgan (length [e1, e2, e3]) 0
            [e1, e2, e3])
     (\<lambda>_. observe (V(j1 \<mapsto> (Done, er1), j2 \<mapsto> (Error, Some msg), j3 \<mapsto> (Done, er3)))
             (change_first sid (\<lambda>s. s\<lparr>s_completed := s_completed s + 1\<rparr>)
               (change_first sid (\<lambda>s. s\<lparr>s_completed := s_completed s + 1\<rparr>) S))
             (C @ [series_card sid (s_title entry) 1 e1, series_card sid (s_title entry) 3 e3])
             (A @ [EpisodeAudio, CopyFile, EpisodeAudio, CopyFile]))
     (\<lambda>_ _. False)"
    by (simp only: entry option.case) (rule three_episodes [OF studio s1 s2 s3 ids d v])
qed

subsection \<open>The outline, the jobs of the episodes, and the run\<close>

lemma valid_bind_value:
  assumes "valid P m (\<lambda>x w. R w \<and> x = a) E" and "valid R (f a) Q E"
  shows "valid P (bind m f) Q E"
proof (rule valid_bind [OF assms(1)])
  fix x
  show "valid (\<lambda>w. R w \<and> x = a) (f x) Q E"
    using assms(2) by (cases "x = a") (simp_all add: valid_def)
qed

lemma find_series_id: "find_series sid S = Some s \<Longrightarrow> s_id s = sid"
  by (induction S) (auto simp: find_series_def split: if_splits)

lemma find_series_change_first:
  assumes "find_series sid S = Some s" and "s_id (f s) = sid"
  shows "find_series sid (change_first sid f S) = Some (f s)"
  using assms by (induction S) (auto simp: find_series_def split: if_splits)

lemma at_set_series:
  assumes "valid (on_file c F S' C A) n Q E"
  shows "valid (on_file c F S C A) (seq (modify (\<lambda>w. w\<lparr>series_file := Parsed S'\<rparr>)) n) Q E"
proof (rule valid_seq [OF _ assms])
  show "valid (on_file c F S C A) (modify (\<lambda>w. w\<lparr>series_file := Parsed S'\<rparr>))
          (\<lambda>_. on_file c F S' C A) E"
    by (simp add: valid_def modify_def on_file_def load_series_def shelf_frame studio_calls_frame)
qed

lemma at_outline:
  assumes "seed_ok seed" and "anthropic e c False = Inr data" and "as_topics data = Inr eps"
    and "valid (on_file (Suc c) F S C A) (f eps) Q E"
  shows "valid (on_file c F S C A) (bind (generate_series_outline e seed n) f) Q E"
proof (rule valid_bind_value [where R = "on_file (Suc c) F S C A" and a = eps])
  show "valid (on_file (Suc c) F S C A) (f eps) Q E" by (rule assms(4))
next
  show "valid (on_file c F S C A) (generate_series_outline e seed n)
          (\<lambda>x w. on_file (Suc c) F S C A w \<and> x = eps) E"
    unfolding valid_def
  proof (intro allI impI)
    fix w assume p: "on_file c F S C A w"
    then have c: "length (calls w) = c" by (simp add: on_file_def)
    have run: "generate_series_outline e seed n w = (Inr eps, w\<lparr>calls := calls w @ [Anthropic False]\<rparr>)"
      using assms(1-3) c
      by (cases seed)
         (auto simp: generate_series_outline_def seed_ok_def call_anthropic_def action_defs)
    from p have "on_file (Suc c) F S C A (w\<lparr>calls := calls w @ [Anthropic False]\<rparr>)"
      by (simp add: on_file_def shelf_def studio_calls_def)
    then show "case generate_series_outline e seed n w of (Inl err, w') \<Rightarrow> E err w'
               | (Inr x, w') \<Rightarrow> on_file (Suc c) F S C A w' \<and> x = eps"
      by (simp add: run)
  qed
qed

text \<open>\<^verbatim>\<open>create_job\<close>: the identifier and the document written.\<close>

lemma at_create_job:
  "valid (on_file c F S C A) (create_job e jt sid sep)
     (\<lambda>x w. on_file (c + 3)
               (Parsed (create_job_doc (uuid8 e c) jt (utc_now e (Suc c)) (utc_now e (Suc (Suc c)))
                  sid sep F)) S C A w
             \<and> x = uuid8 e c) E"
  unfolding valid_def
proof (intro allI impI)
  fix w assume p: "on_file c F S C A w"
  let ?j = "uuid8 e (length (calls w))"
  let ?doc = "create_job_doc ?j jt (utc_now e (Suc (length (calls w))))
                (utc_now e (Suc (Suc (length (calls w))))) sid sep (jobs_file w)"
  let ?w' = "write_jobs ?doc (w\<lparr>calls := calls w @ [Uuid, ClockUtc, ClockUtc]\<rparr>)"
  have run: "create_job e jt sid sep w = (Inr ?j, ?w')"
    by (simp add: create_job_def action_defs write_jobs_def)
  from p have c: "length (calls w) = c" and f: "jobs_file w = F"
    and rest: "load_series (series_file w) = S" "shelf w = C" "studio_calls w = A"
    by (simp_all add: on_file_def)
  have "on_file (length (calls w) + 3) (Parsed ?doc) S C A ?w'"
    using rest by (simp add: on_file_def write_jobs_def shelf_def studio_calls_def)
  with c f show "case create_job e jt sid sep w of (Inl err, w') \<Rightarrow> E err w'
             | (Inr x, w') \<Rightarrow>
                 on_file (c + 3)
                   (Parsed (create_job_doc (uuid8 e c) jt (utc_now e (Suc c))
                      (utc_now e (Suc (Suc c))) sid sep F)) S C A w'
                 \<and> x = uuid8 e c"
    by (simp add: run)
qed

lemma bind_create_job:
  assumes "valid (on_file (c + 3)
                    (Parsed (create_job_doc (uuid8 e c) jt (utc_now e (Suc c))
                       (utc_now e (Suc (Suc c))) sid sep F)) S C A)
             (f (uuid8 e c)) Q E"
  shows "valid (on_file c F S C A) (bind (create_job e jt sid sep) f) Q E"
  by (rule valid_bind_value [where a = "uuid8 e c"
        and R = "on_file (c + 3)
                   (Parsed (create_job_doc (uuid8 e c) jt (utc_now e (Suc c))
                      (utc_now e (Suc (Suc c))) sid sep F)) S C A"])
     (rule at_create_job, rule assms)

lemma bind_assoc: "bind (bind m f) g = bind m (\<lambda>x. bind (f x) g)"
  by (auto simp: bind_def fun_eq_iff split: prod.splits sum.splits)

lemma valid_ret_value: "valid P (ret a) (\<lambda>x w. P w \<and> x = a) E"
  by (simp add: valid_def ret_def)

lemma at_create_episode_jobs:
  assumes n: "episode_number e1 = Some n1" "episode_number e2 = Some n2"
    "episode_number e3 = Some n3"
  shows "valid (on_file c F S C A) (create_episode_jobs e sid [e1, e2, e3])
           (\<lambda>x w. on_file (c + 3 + 3 + 3)
                     (Parsed (create_job_doc (uuid8 e (c + 3 + 3)) ''series_ep''
                        (utc_now e (Suc (c + 3 + 3))) (utc_now e (Suc (Suc (c + 3 + 3))))
                        (Some sid) (Some n3)
                     (Parsed (create_job_doc (uuid8 e (c + 3)) ''series_ep''
                        (utc_now e (Suc (c + 3))) (utc_now e (Suc (Suc (c + 3))))
                        (Some sid) (Some n2)
                     (Parsed (create_job_doc (uuid8 e c) ''series_ep''
                        (utc_now e (Suc c)) (utc_now e (Suc (Suc c)))
                        (Some sid) (Some n1) F))))))
                     S C A w
                   \<and> x = [uuid8 e c, uuid8 e (c + 3), uuid8 e (c + 3 + 3)]) E"
proof -
  have prog: "create_episode_jobs e sid [e1, e2, e3] =
                bind (create_job e ''series_ep'' (Some sid) (Some n1)) (\<lambda>a.
                bind (create_job e ''series_ep'' (Some sid) (Some n2)) (\<lambda>b.
                bind (create_job e ''series_ep'' (Some sid) (Some n3)) (\<lambda>c.
                ret [a, b, c])))"
    by (simp add: n require_key_def bind_ret bind_assoc)
  show ?thesis
    unfolding prog
    by (intro bind_create_job) (rule valid_ret_value)
qed

subsection \<open>New jobs on a full registry\<close>

text \<open>
  A stable sort leaves a sorted tail in place when nothing before it is greater; so
  \<^verbatim>\<open>_save_jobs\<close> evicts none of the youngest records at the end of the dictionary.
\<close>

lemma insort_key_append_le:
  "\<forall>y \<in> set ys. f x \<le> f y \<Longrightarrow> insort_key f x (as @ ys) = insort_key f x as @ ys"
proof (induction as)
  case Nil
  then show ?case by (cases ys) simp_all
next
  case (Cons a as)
  then show ?case by simp
qed

lemma sort_key_append_sorted:
  assumes "sorted (map f ys)" and "\<forall>x \<in> set xs. \<forall>y \<in> set ys. f x \<le> f y"
  shows "sort_key f (xs @ ys) = sort_key f xs @ ys"
  using assms(2)
proof (induction xs)
  case Nil
  from assms(1) show ?case by (simp add: sort_key_id_if_sorted)
next
  case (Cons x xs)
  then have "sort_key f (xs @ ys) = sort_key f xs @ ys" by simp
  moreover from Cons.prems have "\<forall>y \<in> set ys. f x \<le> f y" by simp
  ultimately show ?case by (simp add: insort_key_append_le)
qed

lemma length_update_le: "length (AList.update k v al) \<le> Suc (length al)"
  by (induction al) auto

lemma load_jobs_Parsed: "load_jobs (Parsed jobs) = jobs"
  by (simp add: load_jobs_def)

lemma update_fresh_append: "k \<notin> fst ` set al \<Longrightarrow> AList.update k v al = al @ [(k, v)]"
  by (induction al) auto

lemma save_jobs_keeps_tail:
  assumes d: "distinct (map fst (old @ new))"
    and le: "\<forall>x \<in> set old. \<forall>y \<in> set new. created_at (snd x) \<le> created_at (snd y)"
    and s: "sorted (map (\<lambda>y. created_at (snd y)) new)"
    and len: "length new \<le> 200"
  shows "\<exists>old'. save_jobs (old @ new) = old' @ new \<and> set old' \<subseteq> set old"
proof (cases "200 < length (old @ new)")
  case False
  then have "save_jobs (old @ new) = old @ new" by (simp add: save_jobs_small)
  then show ?thesis by blast
next
  case True
  let ?jobs = "old @ new"
  let ?ck = "created_key ?jobs"
  have ck: "?ck (fst x) = created_at (snd x)" if "x \<in> set ?jobs" for x
    using d that by (rule created_key_entry)
  have m: "map ?ck (map fst new) = map (\<lambda>y. created_at (snd y)) new"
    by (simp add: ck)
  have s': "sorted (map ?ck (map fst new))"
    unfolding m by (rule s)
  have le': "\<forall>a \<in> set (map fst old). \<forall>b \<in> set (map fst new). ?ck a \<le> ?ck b"
    using le by (auto simp: ck)
  have keys: "sort_key ?ck (map fst old @ map fst new) = sort_key ?ck (map fst old) @ map fst new"
    by (rule sort_key_append_sorted [OF s' le'])
  have "length ?jobs - 200 \<le> length (sort_key ?ck (map fst old))"
    using len by simp
  then have ev: "evicted_keys ?jobs = take (length ?jobs - 200) (sort_key ?ck (map fst old))"
    by (simp add: evicted_keys_def keys)
  have "set (evicted_keys ?jobs) \<subseteq> set (sort_key ?ck (map fst old))"
    unfolding ev by (rule set_take_subset)
  then have sub: "set (evicted_keys ?jobs) \<subseteq> fst ` set old" by simp
  from d have "fst ` set old \<inter> fst ` set new = {}" by auto
  with sub have "filter (\<lambda>x. fst x \<notin> set (evicted_keys ?jobs)) new = new"
    by (auto simp: filter_id_conv)
  then have "save_jobs ?jobs = filter (\<lambda>x. fst x \<notin> set (evicted_keys ?jobs)) old @ new"
    using True by (simp add: save_jobs_filter)
  moreover have "set (filter (\<lambda>x. fst x \<notin> set (evicted_keys ?jobs)) old) \<subseteq> set old" by auto
  ultimately show ?thesis by blast
qed

text \<open>
  A registry that ends with young records \<open>new\<close>: a dictionary in which no record of
  \<open>old\<close> was created after \<open>t\<close>, and the records of \<open>new\<close> were created in order, none
  before \<open>t0\<close> and none after \<open>t\<close>.
\<close>

lemma create_keeps_tail:
  assumes d: "distinct (map fst (old @ new))"
    and fresh: "j \<notin> fst ` set (old @ new)"
    and le: "\<forall>x \<in> set old. \<forall>y \<in> set new. created_at (snd x) \<le> created_at (snd y)"
    and s: "sorted (map (\<lambda>y. created_at (snd y)) new)"
    and bound: "\<forall>x \<in> set (old @ new). created_at (snd x) \<le> t"
    and len: "length new < 200"
  shows "\<exists>old'. create_job_doc j jt t u sid sep (Parsed (old @ new))
                   = old' @ (new @ [(j, new_job j jt t u sid sep)])
               \<and> set old' \<subseteq> set old"
proof -
  let ?b = "new_job j jt t u sid sep"
  have doc: "create_job_doc j jt t u sid sep (Parsed (old @ new)) = save_jobs (old @ (new @ [(j, ?b)]))"
    using fresh by (simp add: create_job_doc_def load_jobs_Parsed update_fresh_append)
  have t: "created_at ?b = t" by (simp add: new_job_def)
  have d': "distinct (map fst (old @ (new @ [(j, ?b)])))"
    using d fresh by auto
  have le': "\<forall>x \<in> set old. \<forall>y \<in> set (new @ [(j, ?b)]). created_at (snd x) \<le> created_at (snd y)"
    using le bound by (auto simp: t)
  have s': "sorted (map (\<lambda>y. created_at (snd y)) (new @ [(j, ?b)]))"
    using s bound by (auto simp: sorted_append t)
  have len': "length (new @ [(j, ?b)]) \<le> 200" using len by simp
  from save_jobs_keeps_tail [OF d' le' s' len'] show ?thesis
    unfolding doc .
qed

lemma three_new_jobs_clock:
  assumes d: "distinct (map fst jobs)"
    and old: "\<forall>x \<in> set jobs. created_at (snd x) \<le> t1 \<and> fst x \<notin> {j1, j2, j3}"
    and dj: "distinct [j1, j2, j3]"
    and t: "t1 \<le> t2" "t2 \<le> t3"
    and F: "load_jobs F = jobs"
  shows "\<exists>old'. create_job_doc j3 jt t3 u3 sid p3
                  (Parsed (create_job_doc j2 jt t2 u2 sid p2
                    (Parsed (create_job_doc j1 jt t1 u1 sid p1 F))))
                = old' @ [(j1, new_job j1 jt t1 u1 sid p1), (j2, new_job j2 jt t2 u2 sid p2),
                           (j3, new_job j3 jt t3 u3 sid p3)]
               \<and> set old' \<subseteq> set jobs"
proof -
  let ?b1 = "new_job j1 jt t1 u1 sid p1" and ?b2 = "new_job j2 jt t2 u2 sid p2"
    and ?b3 = "new_job j3 jt t3 u3 sid p3"
  have c: "created_at ?b1 = t1" "created_at ?b2 = t2" "created_at ?b3 = t3"
    by (simp_all add: new_job_def)
  have F': "create_job_doc j1 jt t1 u1 sid p1 F = create_job_doc j1 jt t1 u1 sid p1 (Parsed (jobs @ []))"
    by (simp add: create_job_doc_def F load_jobs_Parsed)
  have "\<exists>old'. create_job_doc j1 jt t1 u1 sid p1 (Parsed (jobs @ [])) = old' @ ([] @ [(j1, ?b1)])
               \<and> set old' \<subseteq> set jobs"
    by (rule create_keeps_tail) (use d old in \<open>auto\<close>)
  then obtain o1 where 1: "create_job_doc j1 jt t1 u1 sid p1 F = o1 @ [(j1, ?b1)]"
    and s1: "set o1 \<subseteq> set jobs"
    unfolding F' by auto
  have d1: "distinct (map fst (o1 @ [(j1, ?b1)]))"
    using save_jobs_distinct [OF update_distinct [OF d], of j1 ?b1] 1
    by (simp add: create_job_doc_def F)
  from t have t13: "t1 \<le> t3" by (rule order_trans)
  have b1: "created_at (snd x) \<le> t1" if "x \<in> set o1" for x
    using that s1 old by blast
  have b2: "created_at (snd x) \<le> t2" if "x \<in> set o1" for x
    using b1 [OF that] t(1) by (rule order_trans)
  have "\<exists>old'. create_job_doc j2 jt t2 u2 sid p2 (Parsed (o1 @ [(j1, ?b1)]))
                 = old' @ ([(j1, ?b1)] @ [(j2, ?b2)])
               \<and> set old' \<subseteq> set o1"
  proof (rule create_keeps_tail [OF d1])
    show "j2 \<notin> fst ` set (o1 @ [(j1, ?b1)])" using s1 old dj by fastforce
    show "\<forall>x \<in> set o1. \<forall>y \<in> set [(j1, ?b1)]. created_at (snd x) \<le> created_at (snd y)"
      using b1 by (simp add: c)
    show "sorted (map (\<lambda>y. created_at (snd y)) [(j1, ?b1)])" by simp
    show "\<forall>x \<in> set (o1 @ [(j1, ?b1)]). created_at (snd x) \<le> t2"
      using b2 t by (auto simp: c)
    show "length [(j1, ?b1)] < 200" by simp
  qed
  then obtain o2 where 2: "create_job_doc j2 jt t2 u2 sid p2 (Parsed (o1 @ [(j1, ?b1)]))
                             = o2 @ [(j1, ?b1), (j2, ?b2)]"
    and s2: "set o2 \<subseteq> set o1"
    by auto
  have c1: "created_at (snd x) \<le> t1" if "x \<in> set o2" for x
    using that s2 b1 by blast
  have c2: "created_at (snd x) \<le> t2" if "x \<in> set o2" for x
    using c1 [OF that] t(1) by (rule order_trans)
  have c3: "created_at (snd x) \<le> t3" if "x \<in> set o2" for x
    using c1 [OF that] t13 by (rule order_trans)
  have d2: "distinct (map fst (o2 @ [(j1, ?b1), (j2, ?b2)]))"
    using save_jobs_distinct [OF update_distinct [OF d1], of j2 ?b2] 2
    by (simp add: create_job_doc_def load_jobs_Parsed)
  have "\<exists>old'. create_job_doc j3 jt t3 u3 sid p3 (Parsed (o2 @ [(j1, ?b1), (j2, ?b2)]))
                 = old' @ ([(j1, ?b1), (j2, ?b2)] @ [(j3, ?b3)])
               \<and> set old' \<subseteq> set o2"
  proof (rule create_keeps_tail [OF d2])
    show "j3 \<notin> fst ` set (o2 @ [(j1, ?b1), (j2, ?b2)])" using s1 s2 old dj by fastforce
    show "\<forall>x \<in> set o2. \<forall>y \<in> set [(j1, ?b1), (j2, ?b2)].
            created_at (snd x) \<le> created_at (snd y)"
      using c1 c2 by (simp add: c)
    show "sorted (map (\<lambda>y. created_at (snd y)) [(j1, ?b1), (j2, ?b2)])"
      using t by (simp add: c)
    show "\<forall>x \<in> set (o2 @ [(j1, ?b1), (j2, ?b2)]). created_at (snd x) \<le> t3"
      using c3 t t13 by (auto simp: c)
    show "length [(j1, ?b1), (j2, ?b2)] < 200" by simp
  qed
  then obtain o3 where 3: "create_job_doc j3 jt t3 u3 sid p3 (Parsed (o2 @ [(j1, ?b1), (j2, ?b2)]))
                             = o3 @ [(j1, ?b1), (j2, ?b2), (j3, ?b3)]"
    and s3: "set o3 \<subseteq> set o2"
    by auto
  from s1 s2 s3 have "set o3 \<subseteq> set jobs" by blast
  with 1 2 3 show ?thesis by auto
qed

text \<open>
  Three jobs created one after the other on a registry that keeps new jobs are in the
  registry, which has at most 200 records.
\<close>

lemma three_new_jobs:
  assumes keep: "length (load_jobs F) + 3 \<le> 200
                 \<or> (distinct (map fst (load_jobs F))
                    \<and> (\<forall>x \<in> set (load_jobs F). created_at (snd x) \<le> t1 \<and> fst x \<notin> {j1, j2, j3})
                    \<and> t1 \<le> t2 \<and> t2 \<le> t3)"
    and dj: "distinct [j1, j2, j3]"
    and doc: "doc = create_job_doc j3 jt t3 u3 sid p3
                  (Parsed (create_job_doc j2 jt t2 u2 sid p2
                    (Parsed (create_job_doc j1 jt t1 u1 sid p1 F))))"
  shows "length doc \<le> 200
       \<and> map_of doc j1 = Some (new_job j1 jt t1 u1 sid p1)
       \<and> map_of doc j2 = Some (new_job j2 jt t2 u2 sid p2)
       \<and> map_of doc j3 = Some (new_job j3 jt t3 u3 sid p3)"
  using keep
proof
  assume room: "length (load_jobs F) + 3 \<le> 200"
  let ?a1 = "AList.update j1 (new_job j1 jt t1 u1 sid p1) (load_jobs F)"
  let ?a2 = "AList.update j2 (new_job j2 jt t2 u2 sid p2) ?a1"
  let ?a3 = "AList.update j3 (new_job j3 jt t3 u3 sid p3) ?a2"
  have l1: "length ?a1 \<le> Suc (length (load_jobs F))" by (rule length_update_le)
  have l2: "length ?a2 \<le> Suc (length ?a1)" by (rule length_update_le)
  have l3: "length ?a3 \<le> Suc (length ?a2)" by (rule length_update_le)
  from room l1 l2 l3 have le: "length ?a1 \<le> 200" "length ?a2 \<le> 200" "length ?a3 \<le> 200"
    by simp_all
  have "doc = ?a3"
    by (simp add: doc create_job_doc_def load_jobs_Parsed save_jobs_small le)
  with le(3) dj show ?thesis
    by (auto simp: update_conv')
next
  assume clock: "distinct (map fst (load_jobs F))
                    \<and> (\<forall>x \<in> set (load_jobs F). created_at (snd x) \<le> t1 \<and> fst x \<notin> {j1, j2, j3})
                    \<and> t1 \<le> t2 \<and> t2 \<le> t3"
  then have d: "distinct (map fst (load_jobs F))"
    and old: "\<forall>x \<in> set (load_jobs F). created_at (snd x) \<le> t1 \<and> fst x \<notin> {j1, j2, j3}"
    and t: "t1 \<le> t2" "t2 \<le> t3"
    by blast+
  from three_new_jobs_clock [OF d old dj t refl, of jt u3 sid p3 u2 p2 u1 p1]
  obtain old' where o: "doc = old' @ [(j1, new_job j1 jt t1 u1 sid p1),
                           (j2, new_job j2 jt t2 u2 sid p2), (j3, new_job j3 jt t3 u3 sid p3)]"
    unfolding doc by blast
  let ?a2 = "AList.update j3 (new_job j3 jt t3 u3 sid p3)
               (load_jobs (Parsed (create_job_doc j2 jt t2 u2 sid p2
                    (Parsed (create_job_doc j1 jt t1 u1 sid p1 F)))))"
  have d1: "distinct (map fst (create_job_doc j1 jt t1 u1 sid p1 F))"
    unfolding create_job_doc_def by (rule save_jobs_distinct [OF update_distinct [OF d]])
  have d2: "distinct (map fst (create_job_doc j2 jt t2 u2 sid p2
                    (Parsed (create_job_doc j1 jt t1 u1 sid p1 F))))"
    unfolding create_job_doc_def
    by (rule save_jobs_distinct [OF update_distinct]) (simp add: load_jobs_Parsed d1 [unfolded create_job_doc_def])
  have d3: "distinct (map fst ?a2)"
    by (rule update_distinct) (simp add: load_jobs_Parsed d2)
  have dd: "distinct (map fst doc)"
    unfolding doc create_job_doc_def [of j3] by (rule save_jobs_distinct [OF d3])
  have "length doc \<le> 200"
    unfolding doc create_job_doc_def [of j3] by (simp add: length_save_jobs [OF d3])
  moreover have "map_of doc j1 = Some (new_job j1 jt t1 u1 sid p1)"
    "map_of doc j2 = Some (new_job j2 jt t2 u2 sid p2)"
    "map_of doc j3 = Some (new_job j3 jt t3 u3 sid p3)"
    unfolding map_of_eq_Some_iff [OF dd] by (simp_all add: o)
  ultimately show ?thesis by simp
qed

subsection \<open>The coordinator of a series\<close>

lemma run_create_series_valid:
  assumes find0: "find_series sid S = Some s0"
    and seed: "seed_ok seed"
    and anth: "anthropic e c False = Inr data"
    and topics: "as_topics data = Inr [e1, e2, e3]"
    and cj: "\<And>S'. valid (on_file (Suc c) F S' C A) (create_episode_jobs e sid [e1, e2, e3])
                     (\<lambda>x w. on_file c9 F3 S' C A w \<and> x = [j1, j2, j3]) (\<lambda>_ _. False)"
    and len: "length (load_jobs F3) \<le> 200"
    and q: "map_option (\<lambda>b. (status b, error b)) (map_of (load_jobs F3) j1) = Some (Queued, None)"
      "map_option (\<lambda>b. (status b, error b)) (map_of (load_jobs F3) j2) = Some (Queued, None)"
      "map_option (\<lambda>b. (status b, error b)) (map_of (load_jobs F3) j3) = Some (Queued, None)"
    and d: "distinct [j1, j2, j3]"
    and studio: "studio_ok e voice_alex voice_morgan"
    and s1: "\<And>brief w. \<exists>x. fst (generate_grounded_script e e1 ''standard'' brief w) = Inr x"
    and s2: "\<And>brief w. fst (generate_grounded_script e e2 ''standard'' brief w) = Inl msg"
    and s3: "\<And>brief w. \<exists>x. fst (generate_grounded_script e e3 ''standard'' brief w) = Inr x"
  shows "valid (on_file c F S C A)
           (run_create_series e sid seed num voice_alex voice_morgan)
           (\<lambda>_. observe
              ((\<lambda>j. map_option (\<lambda>b. (status b, error b)) (map_of (load_jobs F3) j))
                 (j1 \<mapsto> (Done, None), j2 \<mapsto> (Error, Some msg), j3 \<mapsto> (Done, None)))
              (change_first sid (\<lambda>s. s\<lparr>s_status := SDone\<rparr>)
                (change_first sid (\<lambda>s. s\<lparr>s_completed := s_completed s + 1\<rparr>)
                  (change_first sid (\<lambda>s. s\<lparr>s_completed := s_completed s + 1\<rparr>)
                    (change_first sid
                      (\<lambda>s. s\<lparr>s_episodes := [e1, e2, e3], s_job_ids := [j1, j2, j3],
                             s_status := Producing, s_total := int (length [e1, e2, e3]),
                             s_completed := 0\<rparr>)
                      (change_first sid (\<lambda>s. s\<lparr>s_status := Outlining\<rparr>) S)))))
              (C @ [series_card sid (s_title s0) 1 e1, series_card sid (s_title s0) 3 e3])
              (A @ [EpisodeAudio, CopyFile, EpisodeAudio, CopyFile]))
           (\<lambda>_ _. False)"
proof -
  let ?outl = "\<lambda>s. s\<lparr>s_status := Outlining\<rparr>"
  let ?prod = "\<lambda>s. s\<lparr>s_episodes := [e1, e2, e3], s_job_ids := [j1, j2, j3],
                      s_status := Producing, s_total := int (length [e1, e2, e3]),
                      s_completed := 0\<rparr>"
  let ?inc = "\<lambda>s. s\<lparr>s_completed := s_completed s + 1\<rparr>"
  let ?S1 = "change_first sid ?outl S"
  let ?S2 = "change_first sid ?prod ?S1"
  let ?S5 = "change_first sid (\<lambda>s. s\<lparr>s_status := SDone\<rparr>)
               (change_first sid ?inc (change_first sid ?inc ?S2))"
  let ?V1 = "\<lambda>j. map_option (\<lambda>b. (status b, error b)) (map_of (load_jobs F3) j)"
  let ?V3 = "?V1(j1 \<mapsto> (Done, None), j2 \<mapsto> (Error, Some msg), j3 \<mapsto> (Done, None))"
  let ?C2 = "C @ [series_card sid (s_title s0) 1 e1, series_card sid (s_title s0) 3 e3]"
  let ?A2 = "A @ [EpisodeAudio, CopyFile, EpisodeAudio, CopyFile]"
  have id0: "s_id s0 = sid" by (rule find_series_id [OF find0])
  have find1: "find_series sid ?S1 = Some (?outl s0)"
    by (rule find_series_change_first [OF find0]) (simp add: id0)
  have find2: "find_series sid ?S2 = Some (?prod (?outl s0))"
    by (rule find_series_change_first [OF find1]) (simp add: id0)
  have ids: "s_job_ids (?prod (?outl s0)) = [j1, j2, j3]" by simp
  have ttl: "s_title (?prod (?outl s0)) = s_title s0" by simp
  have run: "valid (observe ?V1 ?S2 C A) (run_series e sid [e1, e2, e3] voice_alex voice_morgan)
               (\<lambda>_. observe ?V3 (change_first sid ?inc (change_first sid ?inc ?S2)) ?C2 ?A2)
               (\<lambda>_ _. False)"
    using run_series_three [where V = "?V1", OF studio s1 s2 s3 find2 ids d q]
    unfolding ttl .
  have tail: "valid (observe ?V1 ?S2 C A)
                (seq (run_series e sid [e1, e2, e3] voice_alex voice_morgan)
                     (change_series sid (\<lambda>s. s\<lparr>s_status := SDone\<rparr>)))
                (\<lambda>_. observe ?V3 ?S5 ?C2 ?A2) (\<lambda>_ _. False)"
    by (rule valid_seq [OF run observe_change_series])
  have tail_at: "valid (on_file c9 F3 ?S2 C A)
                (seq (run_series e sid [e1, e2, e3] voice_alex voice_morgan)
                     (change_series sid (\<lambda>s. s\<lparr>s_status := SDone\<rparr>)))
                (\<lambda>_. observe ?V3 ?S5 ?C2 ?A2) (\<lambda>_ _. False)"
  proof (rule valid_weaken [OF tail])
    fix w assume "on_file c9 F3 ?S2 C A w"
    with len show "observe ?V1 ?S2 C A w"
      by (simp add: on_file_def observe_def jobs_view_def get_job_def fun_eq_iff)
  qed simp_all
  have body: "valid (on_file c F S C A)
                (run_create_series_try e sid seed num voice_alex voice_morgan)
                (\<lambda>_. observe ?V3 ?S5 ?C2 ?A2) (\<lambda>_ _. False)"
    unfolding run_create_series_try_def
    apply (rule bind_load_series [where S = S])
     apply (simp add: on_file_def)
    apply (simp only: find0 option.case)
    apply (rule at_set_series)
    apply (rule at_outline [OF seed anth topics])
    apply (rule valid_bind_value [where R = "on_file c9 F3 ?S1 C A" and a = "[j1, j2, j3]"])
     apply (rule cj)
    apply (rule bind_load_series [where S = "?S1"])
     apply (simp add: on_file_def)
    apply (simp only: find1 option.case)
    apply (rule at_set_series)
    apply (rule tail_at)
    done
  show ?thesis
    unfolding run_create_series_def
    by (rule valid_try [OF body]) (rule valid_never)
qed

lemma series_report_of:
  assumes "find_series sid S = Some s" and "load_series (series_file w) = S"
    and "s_status s = st" and "s_completed s = n" and "map (jobs_view w) (s_job_ids s) = vs"
  shows "series_report sid w = Some (st, n, vs)"
  using assms by (simp add: series_report_def)

text \<open>
  C2.  A series \<open>sid\<close> is on file, in a registry that keeps new jobs.  The outline comes
  back with three episodes; the voice service works; the job identifiers never repeat.
  Script synthesis returns for the first and the third episode, and raises \<open>msg\<close> for
  the second.  Then \<^verbatim>\<open>_run_create_series\<close> returns, and the series ends with status
  \<^verbatim>\<open>done\<close> and a counter of 2; the jobs of episodes 1 and 3 end with status \<^verbatim>\<open>done\<close>,
  and the job of episode 2 with status \<^verbatim>\<open>error\<close> and the message \<open>msg\<close>.  Episodes 1
  and 3 are produced: two audio files were rendered and copied, and the published episodes
  are those of before followed by episode 1 and episode 3 of the series.
\<close>

theorem series_survives_failing_episode:
  assumes find0: "find_series sid (load_series (series_file w0)) = Some s0"
    and keep: "keeps_new_jobs e w0"
    and seed: "seed_ok seed"
    and anth: "anthropic e (length (calls w0)) False = Inr data"
    and topics: "as_topics data = Inr [e1, e2, e3]"
    and n: "episode_number e1 \<noteq> None" "episode_number e2 \<noteq> None" "episode_number e3 \<noteq> None"
    and ids: "inj (uuid8 e)"
    and studio: "studio_ok e voice_alex voice_morgan"
    and s1: "\<And>brief w. \<exists>x. fst (generate_grounded_script e e1 ''standard'' brief w) = Inr x"
    and s2: "\<And>brief w. fst (generate_grounded_script e e2 ''standard'' brief w) = Inl msg"
    and s3: "\<And>brief w. \<exists>x. fst (generate_grounded_script e e3 ''standard'' brief w) = Inr x"
  shows "fst (run_create_series e sid seed 3 voice_alex voice_morgan w0) = Inr ()
       \<and> series_report sid (snd (run_create_series e sid seed 3 voice_alex voice_morgan w0))
           = Some (SDone, 2, [Some (Done, None), Some (Error, Some msg), Some (Done, None)])
       \<and> shelf (snd (run_create_series e sid seed 3 voice_alex voice_morgan w0))
           = shelf w0 @ [series_card sid (s_title s0) 1 e1, series_card sid (s_title s0) 3 e3]
       \<and> studio_calls (snd (run_create_series e sid seed 3 voice_alex voice_morgan w0))
           = studio_calls w0 @ [EpisodeAudio, CopyFile, EpisodeAudio, CopyFile]"
proof -
  let ?c = "length (calls w0)"
  let ?F = "jobs_file w0"
  from n obtain n1 n2 n3 where n': "episode_number e1 = Some n1" "episode_number e2 = Some n2"
    "episode_number e3 = Some n3" by auto
  define j1 where "j1 = uuid8 e (Suc ?c)"
  define j2 where "j2 = uuid8 e (Suc ?c + 3)"
  define j3 where "j3 = uuid8 e (Suc ?c + 3 + 3)"
  define t1 where "t1 = utc_now e (Suc (Suc ?c))"
  define t2 where "t2 = utc_now e (Suc (Suc ?c + 3))"
  define t3 where "t3 = utc_now e (Suc (Suc ?c + 3 + 3))"
  define u1 where "u1 = utc_now e (Suc (Suc (Suc ?c)))"
  define u2 where "u2 = utc_now e (Suc (Suc (Suc ?c + 3)))"
  define u3 where "u3 = utc_now e (Suc (Suc (Suc ?c + 3 + 3)))"
  define doc where "doc = create_job_doc j3 ''series_ep'' t3 u3 (Some sid) (Some n3)
                     (Parsed (create_job_doc j2 ''series_ep'' t2 u2 (Some sid) (Some n2)
                       (Parsed (create_job_doc j1 ''series_ep'' t1 u1 (Some sid) (Some n1) ?F))))"
  let ?outl = "\<lambda>s. s\<lparr>s_status := Outlining\<rparr>"
  let ?prod = "\<lambda>s. s\<lparr>s_episodes := [e1, e2, e3], s_job_ids := [j1, j2, j3],
                      s_status := Producing, s_total := int (length [e1, e2, e3]),
                      s_completed := 0\<rparr>"
  let ?inc = "\<lambda>s. s\<lparr>s_completed := s_completed s + 1\<rparr>"
  let ?done = "\<lambda>s. s\<lparr>s_status := SDone\<rparr>"
  let ?S = "load_series (series_file w0)"
  let ?S1 = "change_first sid ?outl ?S"
  let ?S2 = "change_first sid ?prod ?S1"
  let ?S3 = "change_first sid ?inc ?S2"
  let ?S4 = "change_first sid ?inc ?S3"
  let ?S5 = "change_first sid ?done ?S4"
  let ?V3 = "(\<lambda>j. map_option (\<lambda>b. (status b, error b)) (map_of (load_jobs (Parsed doc)) j))
                 (j1 \<mapsto> (Done, None), j2 \<mapsto> (Error, Some msg), j3 \<mapsto> (Done, None))"
  let ?r = "run_create_series e sid seed 3 voice_alex voice_morgan w0"
  have d: "distinct [j1, j2, j3]"
    by (simp add: j1_def j2_def j3_def inj_eq [OF ids])
  have keep': "length (load_jobs ?F) + 3 \<le> 200
                 \<or> (distinct (map fst (load_jobs ?F))
                    \<and> (\<forall>x \<in> set (load_jobs ?F). created_at (snd x) \<le> t1 \<and> fst x \<notin> {j1, j2, j3})
                    \<and> t1 \<le> t2 \<and> t2 \<le> t3)"
    using keep unfolding keeps_new_jobs_def
  proof
    assume "length (load_jobs ?F) + 3 \<le> 200"
    then show ?thesis by (rule disjI1)
  next
    assume clock: "distinct (map fst (load_jobs ?F))
         \<and> (\<forall>x \<in> set (load_jobs ?F).
               created_at (snd x) \<le> utc_now e ?c \<and> (\<forall>n. uuid8 e n \<noteq> fst x))
         \<and> (\<forall>m n. m \<le> n \<longrightarrow> utc_now e m \<le> utc_now e n)"
    then have mono: "m \<le> n \<Longrightarrow> utc_now e m \<le> utc_now e n" for m n by blast
    have "utc_now e ?c \<le> t1" unfolding t1_def by (rule mono) simp
    moreover have "t1 \<le> t2" unfolding t1_def t2_def by (rule mono) simp
    moreover have "t2 \<le> t3" unfolding t2_def t3_def by (rule mono) simp
    moreover have "created_at (snd x) \<le> t1" if "x \<in> set (load_jobs ?F)" for x
    proof -
      from clock that have "created_at (snd x) \<le> utc_now e ?c" by blast
      also have "utc_now e ?c \<le> t1" unfolding t1_def by (rule mono) simp
      finally show ?thesis .
    qed
    moreover have "fst x \<notin> {j1, j2, j3}" if "x \<in> set (load_jobs ?F)" for x
    proof -
      from clock that have fr: "uuid8 e n \<noteq> fst x" for n by blast
      have "fst x \<noteq> uuid8 e n" for n
        using fr [of n] by (rule not_sym)
      then show ?thesis unfolding j1_def j2_def j3_def by simp
    qed
    ultimately show ?thesis using clock by blast
  qed
  note jobs = three_new_jobs [OF keep' d doc_def]
  have len: "length (load_jobs (Parsed doc)) \<le> 200"
    using jobs by (simp add: load_jobs_def)
  have q: "map_option (\<lambda>b. (status b, error b)) (map_of (load_jobs (Parsed doc)) j1) = Some (Queued, None)"
    "map_option (\<lambda>b. (status b, error b)) (map_of (load_jobs (Parsed doc)) j2) = Some (Queued, None)"
    "map_option (\<lambda>b. (status b, error b)) (map_of (load_jobs (Parsed doc)) j3) = Some (Queued, None)"
    using jobs by (simp_all add: load_jobs_def new_job_def)
  have cj: "valid (on_file (Suc ?c) ?F S' (shelf w0) (studio_calls w0))
              (create_episode_jobs e sid [e1, e2, e3])
              (\<lambda>x w. on_file (Suc ?c + 3 + 3 + 3) (Parsed doc) S' (shelf w0) (studio_calls w0) w
                      \<and> x = [j1, j2, j3]) (\<lambda>_ _. False)" for S'
    unfolding doc_def j1_def j2_def j3_def t1_def t2_def t3_def u1_def u2_def u3_def
    by (rule at_create_episode_jobs [OF n'])
  have p: "on_file ?c ?F ?S (shelf w0) (studio_calls w0) w0"
    by (simp add: on_file_def)
  note t = run_create_series_valid [where num = 3, OF find0 seed anth topics cj len q d studio
      s1 s2 s3]
  obtain a w' where r: "?r = (a, w')" by (cases ?r)
  from valid_run [OF t p] r
  have "case a of Inl err \<Rightarrow> False
        | Inr x \<Rightarrow> observe ?V3 ?S5
            (shelf w0 @ [series_card sid (s_title s0) 1 e1, series_card sid (s_title s0) 3 e3])
            (studio_calls w0 @ [EpisodeAudio, CopyFile, EpisodeAudio, CopyFile]) w'"
    by simp
  then have a: "a = Inr ()"
    and o: "observe ?V3 ?S5
            (shelf w0 @ [series_card sid (s_title s0) 1 e1, series_card sid (s_title s0) 3 e3])
            (studio_calls w0 @ [EpisodeAudio, CopyFile, EpisodeAudio, CopyFile]) w'"
    by (cases a; simp)+
  from o have view: "jobs_view w' = ?V3" and series: "load_series (series_file w') = ?S5"
    and cards: "shelf w'
                  = shelf w0 @ [series_card sid (s_title s0) 1 e1, series_card sid (s_title s0) 3 e3]"
    and audio: "studio_calls w' = studio_calls w0 @ [EpisodeAudio, CopyFile, EpisodeAudio, CopyFile]"
    by (simp_all add: observe_def)
  have id0: "s_id s0 = sid" by (rule find_series_id [OF find0])
  have f1: "find_series sid ?S1 = Some (?outl s0)"
    by (rule find_series_change_first [OF find0]) (simp add: id0)
  have f2: "find_series sid ?S2 = Some (?prod (?outl s0))"
    by (rule find_series_change_first [OF f1]) (simp add: id0)
  have f3: "find_series sid ?S3 = Some (?inc (?prod (?outl s0)))"
    by (rule find_series_change_first [OF f2]) (simp add: id0)
  have f4: "find_series sid ?S4 = Some (?inc (?inc (?prod (?outl s0))))"
    by (rule find_series_change_first [OF f3]) (simp add: id0)
  have f5: "find_series sid ?S5 = Some (?done (?inc (?inc (?prod (?outl s0)))))"
    by (rule find_series_change_first [OF f4]) (simp add: id0)
  have "series_report sid w'
          = Some (SDone, 2, [Some (Done, None), Some (Error, Some msg), Some (Done, None)])"
    by (rule series_report_of [OF f5 series]) (use d in \<open>auto simp: view\<close>)
  with a r cards audio show ?thesis by simp
qed

theorem series_survives_failing_episode_witness:
  "length (load_jobs (jobs_file full_series_world)) = 200
   \<and> fst (run_create_series studio_env ''s1'' (SeedPrompt ''Three talks'') 3 ''Alex'' ''Morgan''
          full_series_world) = Inr ()
   \<and> series_report ''s1''
        (snd (run_create_series studio_env ''s1'' (SeedPrompt ''Three talks'') 3 ''Alex'' ''Morgan''
                full_series_world))
       = Some (SDone, 2,
               [Some (Done, None), Some (Error, Some (key_error ''tension'')), Some (Done, None)])
   \<and> shelf (snd (run_create_series studio_env ''s1'' (SeedPrompt ''Three talks'') 3 ''Alex''
                    ''Morgan'' full_series_world))
       = [(Some ''s1'', Some 1, ''[S: A series] Ep 1: One'', ''First tension''),
          (Some ''s1'', Some 3, ''[S: A series] Ep 3: Three'', ''Third tension'')]
   \<and> studio_calls (snd (run_create_series studio_env ''s1'' (SeedPrompt ''Three talks'') 3 ''Alex''
                          ''Morgan'' full_series_world))
       = [EpisodeAudio, CopyFile, EpisodeAudio, CopyFile]"
proof -
  let ?e1 = "outline_topic ''One'' (Some ''First tension'') 1"
  let ?e2 = "outline_topic ''Two'' None 2"
  let ?e3 = "outline_topic ''Three'' (Some ''Third tension'') 3"
  let ?data = "\<lparr> as_script = Inl ''Expecting value'', as_topic = Inl ''Expecting value'',
                 as_topics = Inr three_outline \<rparr>"
  let ?s0 = "\<lparr> s_id = ''s1'', s_title = ''A series'', s_num_episodes = 1, s_status = Producing,
               s_created_at = ''2026-01-01T00:00:00+00:00'', s_episodes = [],
               s_job_ids = [''j1''], s_total = 1, s_completed = 0, s_error = None \<rparr>"
  have jobs: "load_jobs (jobs_file full_series_world) = numbered_registry 200"
    by (simp add: full_series_world_def load_jobs_def)
  have full: "length (load_jobs (jobs_file full_series_world)) = 200"
    by (simp add: jobs numbered_registry_length)
  have find0: "find_series ''s1'' (load_series (series_file full_series_world)) = Some ?s0"
    by (simp add: full_series_world_def one_job_world_def empty_world_def load_series_def
          find_series_def)
  have start: "shelf full_series_world = []" "studio_calls full_series_world = []"
    "length (calls full_series_world) = 0"
    by (simp_all add: full_series_world_def one_job_world_def empty_world_def shelf_def
          studio_calls_def load_episodes_def)
  have old: "created_at (snd x) \<le> utc_now studio_env (length (calls full_series_world))
             \<and> (\<forall>n. uuid8 studio_env n \<noteq> fst x)"
    if "x \<in> set (numbered_registry 200)" for x
  proof -
    from that obtain i where x: "x = numbered_job i"
      by (auto simp: numbered_registry_def)
    have a: "replicate (Suc i) (CHR ''1'') \<le> ''2026-01-01T00:00:00+00:00''"
      by (simp add: less_eq_list_code(3) [symmetric] less_char_def)
    have b: "replicate (Suc n) (CHR ''a'') \<noteq> replicate (Suc i) (CHR ''j'')" for n
      by simp
    have cr: "created_at (snd x) = replicate (Suc i) (CHR ''1'')"
      unfolding x by (rule created_at_numbered)
    have k: "fst x = replicate (Suc i) (CHR ''j'')"
      by (simp add: x numbered_job_def)
    have u: "uuid8 studio_env n = replicate (Suc n) (CHR ''a'')" for n
      by (simp add: studio_env_def)
    have now: "utc_now studio_env n = ''2026-01-01T00:00:00+00:00''" for n
      by (simp add: studio_env_def)
    show ?thesis
      unfolding cr k u now using a b by blast
  qed
  have keep: "keeps_new_jobs studio_env full_series_world"
    unfolding keeps_new_jobs_def jobs
    using numbered_registry_distinct [of 200] old
    by (simp add: studio_env_def)
  have seed: "seed_ok (SeedPrompt ''Three talks'')"
    by (simp add: seed_ok_def)
  have anth: "anthropic studio_env (length (calls full_series_world)) False = Inr ?data"
    by (simp add: studio_env_def)
  have topics: "as_topics ?data = Inr [?e1, ?e2, ?e3]"
    by (simp add: three_outline_def)
  have n: "episode_number ?e1 \<noteq> None" "episode_number ?e2 \<noteq> None" "episode_number ?e3 \<noteq> None"
    by (simp_all add: outline_topic_def)
  have ids: "inj (uuid8 studio_env)"
    by (auto simp: studio_env_def inj_def dest: arg_cong [where f = length])
  have va: "\<not> falsy (resolve_voice_in studio_voices ''Alex'')"
    by code_simp
  have vm: "\<not> falsy (resolve_voice_in studio_voices ''Morgan'')"
    by code_simp
  have studio: "studio_ok studio_env ''Alex'' ''Morgan''"
    using va vm by (simp add: studio_ok_def studio_env_def)
  have s1: "\<exists>x. fst (generate_grounded_script studio_env ?e1 ''standard'' brief w) = Inr x" for brief w
    by (rule script_returns_with_keys) (simp_all add: outline_topic_def)
  have s2: "fst (generate_grounded_script studio_env ?e2 ''standard'' brief w)
              = Inl (key_error ''tension'')" for brief w
    by (simp add: script_raises_without_keys outline_topic_def)
  have s3: "\<exists>x. fst (generate_grounded_script studio_env ?e3 ''standard'' brief w) = Inr x" for brief w
    by (rule script_returns_with_keys) (simp_all add: outline_topic_def)
  have c1: "series_card ''s1'' (s_title ?s0) 1 ?e1
              = (Some ''s1'', Some 1, ''[S: A series] Ep 1: One'', ''First tension'')"
    by (simp add: series_card_def outline_topic_def get_or_def str_nat.simps)
  have c3: "series_card ''s1'' (s_title ?s0) 3 ?e3
              = (Some ''s1'', Some 3, ''[S: A series] Ep 3: Three'', ''Third tension'')"
    by (simp add: series_card_def outline_topic_def get_or_def str_nat.simps)
  note th = series_survives_failing_episode
      [OF find0 keep seed anth topics n ids studio s1 s2 s3, unfolded start c1 c3 append_Nil]
  from full th show ?thesis by simp
qed
end
